theory Spec2Isabelle
  imports Main "HOL-Library.Sublist"
begin

section \<open>Python strings\<close>

text \<open>
  A Python \<open>str\<close> is modelled as a \<open>string\<close> (a list of 8-bit characters) holding ASCII
  text: \<open>str.isspace\<close>, \<open>str.upper\<close>, \<open>str.lower\<close> and the regular expression class
  \<open>\d\<close> are given on the ASCII range, where each of them works character by character.
  Characters above 127 are kept as they are. Python's integers are unbounded, and so is
  \<open>nat\<close>; the bound some Python versions put on the number of digits \<open>int()\<close> converts is
  not part of the model.
\<close>

definition newline :: char where
  "newline = CHR 0x0A"

definition is_space :: "char \<Rightarrow> bool" where
  \<comment> \<open>the characters \<open>str.strip()\<close> removes: TAB, LF, VT, FF, CR, FS, GS, RS, US and the space\<close>
  "is_space c = (let n = (of_char c :: nat) in (9 \<le> n \<and> n \<le> 13) \<or> (28 \<le> n \<and> n \<le> 32))"

definition is_digit :: "char \<Rightarrow> bool" where
  "is_digit c = (let n = (of_char c :: nat) in 48 \<le> n \<and> n \<le> 57)"

definition upper_char :: "char \<Rightarrow> char" where
  "upper_char c = (let n = (of_char c :: nat) in if 97 \<le> n \<and> n \<le> 122 then char_of (n - 32) else c)"

definition lower_char :: "char \<Rightarrow> char" where
  "lower_char c = (let n = (of_char c :: nat) in if 65 \<le> n \<and> n \<le> 90 then char_of (n + 32) else c)"

definition upper :: "string \<Rightarrow> string" where
  "upper s = map upper_char s"

definition lower :: "string \<Rightarrow> string" where
  "lower s = map lower_char s"

definition lstrip :: "string \<Rightarrow> string" where
  "lstrip s = dropWhile is_space s"

definition rstrip :: "string \<Rightarrow> string" where
  "rstrip s = rev (dropWhile is_space (rev s))"

definition strip :: "string \<Rightarrow> string" where
  \<comment> \<open>\<open>s.strip()\<close>\<close>
  "strip s = rstrip (lstrip s)"

definition strip_chars :: "string \<Rightarrow> string \<Rightarrow> string" where
  \<comment> \<open>\<open>s.strip(chars)\<close>\<close>
  "strip_chars chars s =
     rev (dropWhile (\<lambda>c. c \<in> set chars) (rev (dropWhile (\<lambda>c. c \<in> set chars) s)))"

definition remove_spaces :: "string \<Rightarrow> string" where
  \<comment> \<open>\<open>s.replace(" ", "")\<close>\<close>
  "remove_spaces s = filter (\<lambda>c. c \<noteq> CHR '' '') s"

definition startswith :: "string \<Rightarrow> string \<Rightarrow> bool" where
  \<comment> \<open>\<open>s.startswith(p)\<close>\<close>
  "startswith s p = prefix p s"

definition contains :: "string \<Rightarrow> string \<Rightarrow> bool" where
  \<comment> \<open>\<open>p in s\<close>\<close>
  "contains s p = sublist p s"

definition py_int :: "string \<Rightarrow> nat" where
  \<comment> \<open>\<open>int(s)\<close> on a string of decimal digits\<close>
  "py_int s = foldl (\<lambda>acc c. 10 * acc + (of_char c - 48)) 0 s"

fun py_str :: "nat \<Rightarrow> string" where
  \<comment> \<open>\<open>str(n)\<close> of a non-negative integer\<close>
  "py_str n = (if n < 10 then [char_of (48 + n)] else py_str (n div 10) @ [char_of (48 + n mod 10)])"

declare py_str.simps [simp del]

section \<open>The credential file\<close>

text \<open>
  The file is its text as Python's text layer presents it, with \<open>\n\<close> as the line end.
  \<open>f.readlines()\<close> (and iterating over \<open>f\<close>) cuts the text after every line end, keeping
  the line end in the line; the last line has none when the text does not end with one.
  \<open>f.writelines(ls)\<close> on a file opened with \<open>'w'\<close> replaces the text by the
  concatenation of \<open>ls\<close>. The file exists whenever a function runs: the module creates it
  empty when it is absent (lines 44 to 47), so the test of line 98 holds. The copy of the
  entries in \<open>os.environ\<close> is a parameter of the functions that read it.
\<close>

fun readlines :: "string \<Rightarrow> string list" where
  "readlines [] = []"
| "readlines (c # cs) =
     (if c = newline then [c] # readlines cs
      else (case readlines cs of [] \<Rightarrow> [[c]] | l # ls \<Rightarrow> (c # l) # ls))"

definition writelines :: "string list \<Rightarrow> string" where
  "writelines ls = concat ls"

definition TRADE_NAME_PREFIX :: string where
  "TRADE_NAME_PREFIX = ''Trade_Name_''"

definition USER_ID_PREFIX :: string where
  "USER_ID_PREFIX = ''GST_UserID_''"

definition PASSWORD_PREFIX :: string where
  "PASSWORD_PREFIX = ''GST_PSSWD_''"

subsection \<open>\<open>update_env_variable\<close>\<close>

definition env_line :: "string \<Rightarrow> string \<Rightarrow> string" where
  \<comment> \<open>the f-string \<open>f"{key}=\"{new_value}\"\n"\<close>\<close>
  "env_line key new_value = key @ ''=\"'' @ new_value @ ''\"'' @ [newline]"

fun update_loop :: "string \<Rightarrow> string \<Rightarrow> string list \<Rightarrow> string list \<times> bool \<Rightarrow> string list \<times> bool" where
  "update_loop key new_value [] acc = acc"
| "update_loop key new_value (line # lines) (new_lines, updated) =
     (if startswith (strip line) (key @ ''='')
      then update_loop key new_value lines (new_lines @ [env_line key new_value], True)
      else update_loop key new_value lines (new_lines @ [line], updated))"

definition update_env_variable :: "string \<Rightarrow> string \<Rightarrow> string \<Rightarrow> string" where
  "update_env_variable key new_value file =
     (let lines = readlines file;
          (new_lines, updated) = update_loop key new_value lines ([], False);
          new_lines = (if \<not> updated then new_lines @ [env_line key new_value] else new_lines)
      in writelines new_lines)"

subsection \<open>\<open>get_account_mapping\<close>\<close>

text \<open>
  A Python \<open>dict\<close> keeps its keys in insertion order, and assigning to a key that is
  present keeps the key's place: an association list with that update.
\<close>

type_synonym py_dict = "(string \<times> string) list"

fun dict_set :: "py_dict \<Rightarrow> string \<Rightarrow> string \<Rightarrow> py_dict" where
  "dict_set [] k v = [(k, v)]"
| "dict_set ((k', v') # d) k v = (if k' = k then (k, v) # d else (k', v') # dict_set d k v)"

definition dict_get :: "py_dict \<Rightarrow> string \<Rightarrow> string option" where
  "dict_get d k = map_of d k"

definition re_match_trade_name :: "string \<Rightarrow> (string \<times> string) option" where
  \<comment> \<open>\<open>re.match(rf"^{TRADE_NAME_PREFIX}(\d+)=(.*)$", line)\<close>: groups 1 and 2 of the match.
      \<open>.\<close> matches no line end, and \<open>$\<close> matches at the end or before a final line end.\<close>
  "re_match_trade_name line =
     (if \<not> startswith line TRADE_NAME_PREFIX then None
      else
        let rest = drop (length TRADE_NAME_PREFIX) line;
            digits = takeWhile is_digit rest
        in if digits = [] then None
           else (case dropWhile is_digit rest of
                   [] \<Rightarrow> None
                 | c # v \<Rightarrow>
                     if c \<noteq> CHR ''='' then None
                     else if newline \<notin> set v then Some (digits, v)
                     else if newline \<notin> set (butlast v) then Some (digits, butlast v)
                     else None))"

definition normalize_stored :: "string \<Rightarrow> string" where
  \<comment> \<open>\<open>match.group(2).strip().strip('"').replace(" ", "").upper()\<close>\<close>
  "normalize_stored v = upper (remove_spaces (strip_chars ''\"'' (strip v)))"

fun scan_loop :: "string list \<Rightarrow> py_dict \<times> nat \<Rightarrow> py_dict \<times> nat" where
  "scan_loop [] acc = acc"
| "scan_loop (line # lines) (trade_name_to_index, highest_index) =
     (case re_match_trade_name (strip line) of
        None \<Rightarrow> scan_loop lines (trade_name_to_index, highest_index)
      | Some (g1, g2) \<Rightarrow>
          let index = py_int g1;
              trade_name = normalize_stored g2
          in scan_loop lines
               (dict_set trade_name_to_index trade_name (py_str index),
                if index > highest_index then index else highest_index))"

definition get_account_mapping :: "string \<Rightarrow> py_dict \<times> nat" where
  "get_account_mapping file =
     (let (trade_name_to_index, highest_index) = scan_loop (readlines file) ([], 0)
      in (trade_name_to_index, highest_index + 1))"

definition next_index :: "string \<Rightarrow> nat" where
  "next_index file = snd (get_account_mapping file)"

definition trade_name_indices :: "string list \<Rightarrow> nat list" where
  \<comment> \<open>the indices \<open>i\<close> of the lines that are well-formed \<open>Trade_Name_<i>=...\<close> entries\<close>
  "trade_name_indices lines =
     List.map_filter (\<lambda>line. map_option (\<lambda>(g1, g2). py_int g1) (re_match_trade_name (strip line))) lines"

subsection \<open>Resolving a trade name\<close>

definition normalized_account_name :: "string \<Rightarrow> string" where
  \<comment> \<open>\<open>account_name_input.replace(" ", "").upper()\<close>\<close>
  "normalized_account_name account_name_input = upper (remove_spaces account_name_input)"

definition resolve :: "string \<Rightarrow> string \<Rightarrow> string option" where
  \<comment> \<open>the lookup of \<open>perform_gst_login\<close> and \<open>update_existing_account\<close>: the line read by
      \<open>input(...).strip()\<close> is normalized and looked up in the mapping of the file\<close>
  "resolve file raw_input =
     dict_get (fst (get_account_mapping file)) (normalized_account_name (strip raw_input))"

subsection \<open>\<open>add_new_account\<close>\<close>

text \<open>
  The operator's answers are the list \<open>inputs\<close>, one line per call of \<open>input()\<close>, which
  raises \<open>EOFError\<close> when none is left. A run returns its outcome, the text of the file
  afterwards, the calls of \<open>update_env_variable\<close> it made, and the prompts it asked with the
  line read at each. Messages printed for the operator are not part of the model.
\<close>

datatype prompt = AskTradeName | AskOverwrite | AskUsername | AskPassword

datatype add_outcome =
    AddEmptyTradeName | AddOverwriteDeclined | AddEmptyCredentials | Added string | AddEOFError

datatype update_outcome =
    UpdateNoAccounts | UpdateNotFound | Updated | UpdateNoChanges | UpdateEOFError

record 'o run =
  outcome :: 'o
  file_after :: string
  writes :: "(string \<times> string) list"
  asked :: "(prompt \<times> string) list"

definition add_credentials ::
  "string \<Rightarrow> string \<Rightarrow> string \<Rightarrow> (prompt \<times> string) list \<Rightarrow> string list \<Rightarrow> add_outcome run" where
  \<comment> \<open>lines 139 to 154 of \<open>add_new_account\<close>, once \<open>index_to_use\<close> is known\<close>
  "add_credentials file new_trade_name index_to_use asked0 inputs =
     (let username_key = USER_ID_PREFIX @ index_to_use;
          password_key = PASSWORD_PREFIX @ index_to_use;
          trade_name_key = TRADE_NAME_PREFIX @ index_to_use
      in case inputs of
           raw_username # raw_password # _ \<Rightarrow>
             let new_username = strip raw_username;
                 new_password = strip raw_password;
                 asked1 = asked0 @ [(AskUsername, raw_username), (AskPassword, raw_password)]
             in if new_username = [] \<or> new_password = []
                then \<lparr>outcome = AddEmptyCredentials, file_after = file, writes = [], asked = asked1\<rparr>
                else
                  let file1 = update_env_variable trade_name_key new_trade_name file;
                      file2 = update_env_variable username_key new_username file1;
                      file3 = update_env_variable password_key new_password file2
                  in \<lparr>outcome = Added index_to_use, file_after = file3,
                      writes = [(trade_name_key, new_trade_name), (username_key, new_username),
                                (password_key, new_password)],
                      asked = asked1\<rparr>
         | [raw_username] \<Rightarrow>
             \<lparr>outcome = AddEOFError, file_after = file, writes = [],
              asked = asked0 @ [(AskUsername, raw_username)]\<rparr>
         | [] \<Rightarrow> \<lparr>outcome = AddEOFError, file_after = file, writes = [], asked = asked0\<rparr>)"

definition add_new_account :: "string \<Rightarrow> string list \<Rightarrow> add_outcome run" where
  "add_new_account file inputs =
     (let (trade_name_mapping, next_available_index) = get_account_mapping file
      in case inputs of
           [] \<Rightarrow> \<lparr>outcome = AddEOFError, file_after = file, writes = [], asked = []\<rparr>
         | raw_name # inputs1 \<Rightarrow>
             let new_trade_name = strip raw_name;
                 asked1 = [(AskTradeName, raw_name)]
             in if new_trade_name = []
                then \<lparr>outcome = AddEmptyTradeName, file_after = file, writes = [], asked = asked1\<rparr>
                else
                  let normalized_trade_name = upper (remove_spaces new_trade_name)
                  in (case dict_get trade_name_mapping normalized_trade_name of
                        Some existing_index \<Rightarrow>
                          (case inputs1 of
                             [] \<Rightarrow> \<lparr>outcome = AddEOFError, file_after = file, writes = [],
                                    asked = asked1\<rparr>
                           | raw_overwrite # inputs2 \<Rightarrow>
                               let overwrite = lower (strip raw_overwrite);
                                   asked2 = asked1 @ [(AskOverwrite, raw_overwrite)]
                               in if overwrite \<noteq> ''yes''
                                  then \<lparr>outcome = AddOverwriteDeclined, file_after = file,
                                        writes = [], asked = asked2\<rparr>
                                  else add_credentials file new_trade_name existing_index asked2 inputs2)
                      | None \<Rightarrow>
                          add_credentials file new_trade_name (py_str next_available_index) asked1
                            inputs1))"

subsection \<open>\<open>update_existing_account\<close>\<close>

definition update_existing_account :: "string \<Rightarrow> string list \<Rightarrow> update_outcome run" where
  "update_existing_account file inputs =
     (let (trade_name_mapping, _) = get_account_mapping file
      in if trade_name_mapping = []
         then \<lparr>outcome = UpdateNoAccounts, file_after = file, writes = [], asked = []\<rparr>
         else
           (case inputs of
              [] \<Rightarrow> \<lparr>outcome = UpdateEOFError, file_after = file, writes = [], asked = []\<rparr>
            | raw_name # inputs1 \<Rightarrow>
                let account_to_update_name_input = strip raw_name;
                    asked1 = [(AskTradeName, raw_name)]
                in (case dict_get trade_name_mapping
                           (normalized_account_name account_to_update_name_input) of
                      None \<Rightarrow> \<lparr>outcome = UpdateNotFound, file_after = file, writes = [],
                               asked = asked1\<rparr>
                    | Some index_to_update \<Rightarrow>
                        let username_key = USER_ID_PREFIX @ index_to_update;
                            password_key = PASSWORD_PREFIX @ index_to_update
                        in (case inputs1 of
                              raw_username # raw_password # _ \<Rightarrow>
                                let new_username = strip raw_username;
                                    new_password = strip raw_password;
                                    file1 = (if new_username \<noteq> []
                                             then update_env_variable username_key new_username file
                                             else file);
                                    file2 = (if new_password \<noteq> []
                                             then update_env_variable password_key new_password file1
                                             else file1)
                                in \<lparr>outcome = (if new_username \<noteq> [] then Updated
                                               else if new_password \<noteq> [] then Updated
                                               else UpdateNoChanges),
                                    file_after = file2,
                                    writes = (if new_username \<noteq> [] then [(username_key, new_username)] else [])
                                           @ (if new_password \<noteq> [] then [(password_key, new_password)] else []),
                                    asked = asked1 @ [(AskUsername, raw_username),
                                                      (AskPassword, raw_password)]\<rparr>
                            | [raw_username] \<Rightarrow>
                                \<lparr>outcome = UpdateEOFError, file_after = file, writes = [],
                                 asked = asked1 @ [(AskUsername, raw_username)]\<rparr>
                            | [] \<Rightarrow> \<lparr>outcome = UpdateEOFError, file_after = file, writes = [],
                                     asked = asked1\<rparr>))))"

subsection \<open>\<open>list_all_accounts\<close>\<close>

definition getenv :: "(string \<rightharpoonup> string) \<Rightarrow> string \<Rightarrow> string \<Rightarrow> string" where
  \<comment> \<open>\<open>os.getenv(key, default)\<close>\<close>
  "getenv environ key dflt = (case environ key of Some v \<Rightarrow> v | None \<Rightarrow> dflt)"

definition sorted_by_index :: "py_dict \<Rightarrow> (string \<times> string) list" where
  \<comment> \<open>\<open>sorted(trade_name_mapping.items(), key=lambda item: int(item[1]))\<close>, a stable sort\<close>
  "sorted_by_index trade_name_mapping = sort_key (\<lambda>item. py_int (snd item)) trade_name_mapping"

definition list_all_accounts :: "(string \<rightharpoonup> string) \<Rightarrow> string \<Rightarrow> (string \<times> string \<times> string) list" where
  \<comment> \<open>for each account listed, in the order listed: the trade name shown, its index and the
      username shown\<close>
  "list_all_accounts environ file =
     map (\<lambda>(name_upper, index).
            (getenv environ (TRADE_NAME_PREFIX @ index) name_upper, index,
             getenv environ (USER_ID_PREFIX @ index) ''N/A''))
         (sorted_by_index (fst (get_account_mapping file)))"

section \<open>The login attempt\<close>

text \<open>
  The browser session is a scripted world: for each call the program makes on the driver (and
  each line it reads from the operator during the attempt), the script says whether the call
  raises. An exception is an \<open>Exception\<close>, which \<open>except Exception\<close> catches, or another
  \<open>BaseException\<close> (such as \<open>KeyboardInterrupt\<close>), which it does not. The three reads of
  \<open>driver.current_url\<close> in the condition of line 354 give the same result. Printing and
  \<open>driver.quit()\<close> do not raise.
\<close>

datatype exn = Exception string | BaseException string

datatype step =
    UsernameWait | UsernameSend | PasswordFind | PasswordSend | CaptchaWait | CaptchaInput
  | CaptchaSend | LoginButtonWait | LoginButtonClick

record session =
  start_browser :: "exn option"
  navigate :: "exn option"
  step_fault :: "step \<Rightarrow> exn option"
  current_url :: "exn + string"
  keep_open :: "exn option"
  error_message :: "exn + string"

datatype event = Print string | DriverStarted | DriverQuit

datatype control = Continue | Break | Raise exn

fun run_steps :: "(step \<Rightarrow> exn option) \<Rightarrow> step list \<Rightarrow> exn option" where
  "run_steps fault [] = None"
| "run_steps fault (s # ss) = (case fault s of Some e \<Rightarrow> Some e | None \<Rightarrow> run_steps fault ss)"

definition form_steps :: "step list" where
  \<comment> \<open>lines 329 to 350, in order\<close>
  "form_steps = [UsernameWait, UsernameSend, PasswordFind, PasswordSend, CaptchaWait,
                 CaptchaInput, CaptchaSend, LoginButtonWait, LoginButtonClick]"

definition has_marker :: "string \<Rightarrow> bool" where
  \<comment> \<open>the condition of line 354\<close>
  "has_marker url = (contains url ''dashboard'' \<or> contains url ''home'' \<or> contains url ''loggedin'')"

definition msg_attempting :: "string \<Rightarrow> string" where
  "msg_attempting name = ''Attempting to log in with account: '' @ name"

definition msg_success :: "string \<Rightarrow> string" where
  "msg_success name = ''Successfully logged in with account: '' @ name"

definition msg_failed :: "string \<Rightarrow> string" where
  "msg_failed name = ''Login failed for account: '' @ name @ ''.''"

definition msg_error :: "string \<Rightarrow> string \<Rightarrow> string" where
  "msg_error name e = ''An error occurred during login for account '' @ name @ '': '' @ e"

definition msg_check :: string where
  "msg_check = ''Please check the credentials, CAPTCHA, or the GST portal'' @ [CHR 0x27]
                 @ ''s status and try again.''"

definition try_body :: "session \<Rightarrow> string \<Rightarrow> (exn + control) \<times> event list" where
  \<comment> \<open>the body of the \<open>try\<close>, lines 329 to 365: the exception it raises or how it ends, and
      what it printed\<close>
  "try_body w name =
     (case run_steps (step_fault w) form_steps of
        Some e \<Rightarrow> (Inl e, [])
      | None \<Rightarrow>
          (case current_url w of
             Inl e \<Rightarrow> (Inl e, [])
           | Inr url \<Rightarrow>
               if has_marker url
               then (case keep_open w of
                       Some e \<Rightarrow> (Inl e, [Print (msg_success name)])
                     | None \<Rightarrow> (Inr Break, [Print (msg_success name)]))
               else (Inr Continue,
                     [Print (msg_failed name)]
                     @ (case error_message w of
                          Inl e \<Rightarrow> []
                        | Inr text \<Rightarrow> [Print (''Error message: '' @ text)])
                     @ [Print msg_check])))"

definition login_attempt :: "session \<Rightarrow> string \<Rightarrow> control \<times> event list" where
  \<comment> \<open>lines 323 to 373: one pass through the branch \<open>if username and password\<close>\<close>
  "login_attempt w name =
     (let started = [Print (msg_attempting name)]
      in case start_browser w of
           Some e \<Rightarrow> (Raise e, started)
         | None \<Rightarrow>
             (case navigate w of
                Some e \<Rightarrow> (Raise e, started @ [DriverStarted])
              | None \<Rightarrow>
                  (case try_body w name of
                     (Inr c, printed) \<Rightarrow> (c, started @ [DriverStarted] @ printed @ [DriverQuit])
                   | (Inl (Exception m), printed) \<Rightarrow>
                       (Continue,
                        started @ [DriverStarted] @ printed @ [Print (msg_error name m)]
                        @ [DriverQuit])
                   | (Inl (BaseException m), printed) \<Rightarrow>
                       (Raise (BaseException m),
                        started @ [DriverStarted] @ printed @ [DriverQuit]))))"

definition quit_count :: "event list \<Rightarrow> nat" where
  "quit_count events = length (filter (\<lambda>e. e = DriverQuit) events)"

subsection \<open>\<open>perform_gst_login\<close> and the main menu\<close>

text \<open>
  Each element of \<open>inputs\<close> is the line the operator types at the account prompt of one
  turn of the loop, with the scripted session of the attempt that turn may start.
\<close>

datatype result = Returned | Propagated exn

definition truthy :: "string option \<Rightarrow> bool" where
  \<comment> \<open>the truth value of what \<open>os.getenv(key)\<close> returns\<close>
  "truthy v = (case v of None \<Rightarrow> False | Some s \<Rightarrow> s \<noteq> [])"

fun login_loop ::
  "py_dict \<Rightarrow> (string \<rightharpoonup> string) \<Rightarrow> (string \<times> session) list \<Rightarrow> result \<times> event list" where
  "login_loop trade_name_mapping environ [] = (Propagated (Exception ''EOFError''), [])"
| "login_loop trade_name_mapping environ ((raw, w) # rest) =
     (let account_name_input = strip raw
      in if lower account_name_input = ''back''
         then (Returned, [Print ''Returning to main menu.''])
         else if lower account_name_input = ''list''
         then login_loop trade_name_mapping environ rest
         else
           (case dict_get trade_name_mapping (normalized_account_name account_name_input) of
              None \<Rightarrow> login_loop trade_name_mapping environ rest
            | Some index \<Rightarrow>
                let username = environ (USER_ID_PREFIX @ index);
                    password = environ (PASSWORD_PREFIX @ index);
                    original_trade_name_found =
                      getenv environ (TRADE_NAME_PREFIX @ index) account_name_input
                in if truthy username \<and> truthy password
                   then (case login_attempt w original_trade_name_found of
                           (Break, events) \<Rightarrow> (Returned, events)
                         | (Raise e, events) \<Rightarrow> (Propagated e, events)
                         | (Continue, events) \<Rightarrow>
                             (let (r, later) = login_loop trade_name_mapping environ rest
                              in (r, events @ later)))
                   else login_loop trade_name_mapping environ rest))"

definition perform_gst_login ::
  "bool \<Rightarrow> (string \<rightharpoonup> string) \<Rightarrow> string \<Rightarrow> (string \<times> session) list \<Rightarrow> result \<times> event list" where
  \<comment> \<open>\<open>chromedriver_exists\<close> is \<open>os.path.exists(chromedriver_path)\<close>; the listings and the
      messages of the turns that start no attempt are not recorded\<close>
  "perform_gst_login chromedriver_exists environ file inputs =
     (if \<not> chromedriver_exists
      then (case inputs of [] \<Rightarrow> (Propagated (Exception ''EOFError''), []) | _ # _ \<Rightarrow> (Returned, []))
      else
        let trade_name_mapping = fst (get_account_mapping file);
            available_trade_names_for_display =
              map (\<lambda>(name_upper_key, index). getenv environ (TRADE_NAME_PREFIX @ index) name_upper_key)
                  (sorted_by_index trade_name_mapping)
        in if available_trade_names_for_display = []
           then (case inputs of [] \<Rightarrow> (Propagated (Exception ''EOFError''), []) | _ # _ \<Rightarrow> (Returned, []))
           else login_loop trade_name_mapping environ inputs)"

datatype process = BackInMainMenu | Terminated exn

definition main_choice_2 ::
  "bool \<Rightarrow> (string \<rightharpoonup> string) \<Rightarrow> string \<Rightarrow> (string \<times> session) list \<Rightarrow> process" where
  \<comment> \<open>lines 394 and 395: the call is under no \<open>try\<close>, so an exception that leaves
      \<open>perform_gst_login\<close> ends the process\<close>
  "main_choice_2 chromedriver_exists environ file inputs =
     (case fst (perform_gst_login chromedriver_exists environ file inputs) of
        Returned \<Rightarrow> BackInMainMenu
      | Propagated e \<Rightarrow> Terminated e)"

section \<open>Strings that differ only in casing and spacing\<close>

definition same_up_to_case_and_whitespace :: "string \<Rightarrow> string \<Rightarrow> bool" where
  \<comment> \<open>the two strings differ only in letter casing and in whitespace, wherever it stands:
      without their whitespace characters they are equal up to the case of their letters\<close>
  "same_up_to_case_and_whitespace a b =
     (map upper_char (filter (\<lambda>c. \<not> is_space c) a) = map upper_char (filter (\<lambda>c. \<not> is_space c) b))"

text \<open>
  The narrower relation: the strings become equal by changing the case of letters, by
  inserting or deleting space characters anywhere, and by adding or removing whitespace
  characters of any kind at the two ends.
\<close>

inductive same_up_to_case_and_spaces :: "string \<Rightarrow> string \<Rightarrow> bool" where
  same: "same_up_to_case_and_spaces s s"
| swap: "same_up_to_case_and_spaces a b \<Longrightarrow> same_up_to_case_and_spaces b a"
| chain: "same_up_to_case_and_spaces a b \<Longrightarrow> same_up_to_case_and_spaces b c
          \<Longrightarrow> same_up_to_case_and_spaces a c"
| letter_case: "upper_char c = upper_char c' \<Longrightarrow> same_up_to_case_and_spaces (u @ c # v) (u @ c' # v)"
| space: "same_up_to_case_and_spaces (u @ v) (u @ CHR '' '' # v)"
| leading: "is_space c \<Longrightarrow> same_up_to_case_and_spaces s (c # s)"
| trailing: "is_space c \<Longrightarrow> same_up_to_case_and_spaces s (s @ [c])"

definition squash :: "string \<Rightarrow> string" where
  \<comment> \<open>\<open>replace(" ", "")\<close> followed by \<open>upper()\<close>, on any string\<close>
  "squash s = map upper_char (filter (\<lambda>c. c \<noteq> CHR '' '') s)"

section \<open>Lines of the file\<close>

text \<open>
  The notions in which the behaviour of the file operations is stated: a line that ends
  with its line end, a last line that has none, a text that is empty or ends with a line
  end, the lines \<open>update_env_variable\<close> takes for entries of a key, and the lines
  \<open>get_account_mapping\<close> takes for \<open>Trade_Name_<digits>=<value>\<close> entries.
\<close>

definition complete_line :: "string \<Rightarrow> bool" where
  "complete_line l = (l \<noteq> [] \<and> last l = newline \<and> newline \<notin> set (butlast l))"

definition partial_line :: "string \<Rightarrow> bool" where
  "partial_line l = (l \<noteq> [] \<and> newline \<notin> set l)"

fun lines_ok :: "string list \<Rightarrow> bool" where
  "lines_ok [] = True"
| "lines_ok [l] = (complete_line l \<or> partial_line l)"
| "lines_ok (l # ls) = (complete_line l \<and> lines_ok ls)"

definition terminated :: "string \<Rightarrow> bool" where
  "terminated file = (file = [] \<or> last file = newline)"

definition is_key_line :: "string \<Rightarrow> string \<Rightarrow> bool" where
  \<comment> \<open>the test of line 70\<close>
  "is_key_line key line = startswith (strip line) (key @ ''='')"

definition has_key :: "string \<Rightarrow> string \<Rightarrow> bool" where
  "has_key key file = (\<exists>l \<in> set (readlines file). is_key_line key l)"

definition rewrite_line :: "string \<Rightarrow> string \<Rightarrow> string \<Rightarrow> string" where
  "rewrite_line key new_value line = (if is_key_line key line then env_line key new_value else line)"

definition well_formed :: "string \<Rightarrow> bool" where
  \<comment> \<open>the test of lines 101 to 103: the stripped line matches the pattern\<close>
  "well_formed line = (re_match_trade_name (strip line) \<noteq> None)"

section \<open>Example sessions and files\<close>

text \<open>The concrete sessions, environment and file at which the closed instances below are evaluated.\<close>

definition session_ok :: "string \<Rightarrow> session" where
  \<comment> \<open>a session in which no call raises, the page after the click is at \<open>url\<close>, and the page
      has no error-message element\<close>
  "session_ok url =
     \<lparr>start_browser = None, navigate = None, step_fault = (\<lambda>_. None), current_url = Inr url,
      keep_open = None, error_message = Inl (Exception ''NoSuchElementException'')\<rparr>"

definition login_url :: string where
  "login_url = ''https://services.gst.gov.in/services/login''"

definition example_environ :: "string \<rightharpoonup> string" where
  "example_environ =
     [''Trade_Name_1'' \<mapsto> ''Acme Co'', ''GST_UserID_1'' \<mapsto> ''u1'', ''GST_PSSWD_1'' \<mapsto> ''p1'']"

definition example_file :: string where
  "example_file =
     env_line ''Trade_Name_1'' ''Acme Co'' @ env_line ''GST_UserID_1'' ''u1''
     @ env_line ''GST_PSSWD_1'' ''p1''"

definition unterminated_file :: string where
  \<comment> \<open>one complete account, in a text whose last line has no line end\<close>
  "unterminated_file =
     env_line ''Trade_Name_1'' ''Acme Co'' @ env_line ''GST_UserID_1'' ''u1'' @ ''GST_PSSWD_1=\"p1\"''"

definition incomplete_account_file :: string where
  \<comment> \<open>an account with a password and no username, in a text whose last line has no line end\<close>
  "incomplete_account_file = env_line ''Trade_Name_2'' ''Beta'' @ ''GST_PSSWD_2=\"p\"''"

section \<open>Evaluation rules\<close>

lemmas char_eval = char_of_def bit_Suc_0_iff is_space_def is_digit_def upper_char_def lower_char_def
  newline_def

lemmas str_eval = Let_def char_eval upper_def lower_def lstrip_def rstrip_def strip_def strip_chars_def
  remove_spaces_def startswith_def py_int_def py_str.simps

lemmas store_eval = str_eval writelines_def env_line_def TRADE_NAME_PREFIX_def USER_ID_PREFIX_def
  PASSWORD_PREFIX_def update_env_variable_def dict_get_def re_match_trade_name_def
  normalize_stored_def get_account_mapping_def next_index_def trade_name_indices_def
  List.map_filter_def normalized_account_name_def resolve_def add_credentials_def
  add_new_account_def update_existing_account_def getenv_def sorted_by_index_def
  list_all_accounts_def

lemmas login_eval = form_steps_def has_marker_def contains_def msg_attempting_def msg_success_def
  msg_failed_def msg_error_def msg_check_def try_body_def login_attempt_def quit_count_def
  truthy_def perform_gst_login_def main_choice_2_def

lemmas lines_eval = is_key_line_def has_key_def rewrite_line_def well_formed_def terminated_def

section \<open>The next index\<close>

lemma scan_loop_highest:
  "snd (scan_loop lines (d, h)) = fold max (trade_name_indices lines) h"
proof (induction lines arbitrary: d h)
  case Nil
  show ?case by (simp add: trade_name_indices_def List.map_filter_def)
next
  case (Cons line lines)
  show ?case
  proof (cases "re_match_trade_name (strip line)")
    case None
    then show ?thesis
      using Cons.IH [of d h] by (simp add: trade_name_indices_def List.map_filter_def)
  next
    case (Some g)
    obtain g1 g2 where g: "g = (g1, g2)" by (cases g)
    have "fold max (trade_name_indices (line # lines)) h
          = fold max (trade_name_indices lines) (max (py_int g1) h)"
      using Some g by (simp add: trade_name_indices_def List.map_filter_def)
    moreover have "(if py_int g1 > h then py_int g1 else h) = max (py_int g1) h"
      by (simp add: max_def)
    ultimately show ?thesis
      using Some g Cons.IH by (simp add: Let_def)
  qed
qed

lemma fold_max_Max:
  "fold max xs (h::nat) = Max (insert h (set xs))"
  using Max.set_eq_fold [of h xs] by simp

lemma next_index_Max_insert:
  "next_index file = Max (insert 0 (set (trade_name_indices (readlines file)))) + 1"
proof -
  obtain d h where dh: "scan_loop (readlines file) ([], 0) = (d, h)"
    by (cases "scan_loop (readlines file) ([], 0)")
  have "h = fold max (trade_name_indices (readlines file)) 0"
    using scan_loop_highest [of "readlines file" "[]" 0] dh by simp
  then have "h = Max (insert 0 (set (trade_name_indices (readlines file))))"
    by (simp only: fold_max_Max)
  then show ?thesis using dh by (simp add: next_index_def get_account_mapping_def)
qed

text \<open>
  C4. The next index is one more than the largest index of a well-formed \<open>Trade_Name_<i>\<close>
  line of the file, and 1 when the file has no such line.
\<close>

theorem next_index_max:
  "next_index file =
     (if trade_name_indices (readlines file) = [] then 1
      else Max (set (trade_name_indices (readlines file))) + 1)"
proof (cases "trade_name_indices (readlines file) = []")
  case True
  then show ?thesis using next_index_Max_insert [of "file"] by simp
next
  case False
  then have "Max (insert 0 (set (trade_name_indices (readlines file))))
             = Max (set (trade_name_indices (readlines file)))"
    by (simp add: max_def)
  then show ?thesis using False next_index_Max_insert [of "file"] by simp
qed

theorem next_index_max_witness:
  "next_index (env_line ''Trade_Name_1'' ''Acme'' @ env_line ''Trade_Name_3'' ''Beta'') = 4
   \<and> next_index [] = 1"
proof -
  have a: "trade_name_indices
             (readlines (env_line ''Trade_Name_1'' ''Acme'' @ env_line ''Trade_Name_3'' ''Beta''))
           = [1, 3]"
    by (simp add: store_eval)
  have b: "trade_name_indices [] = []"
    by (simp add: store_eval)
  show ?thesis
    using next_index_max [of "env_line ''Trade_Name_1'' ''Acme'' @ env_line ''Trade_Name_3'' ''Beta''"]
      next_index_max [of "[]"]
    by (simp add: a b)
qed

section \<open>Rejected additions\<close>

lemma add_credentials_rejected:
  assumes "(AskUsername, raw) \<in> set (asked (add_credentials file name idx asked0 inputs))
           \<or> (AskPassword, raw) \<in> set (asked (add_credentials file name idx asked0 inputs))"
    and "(AskUsername, raw) \<notin> set asked0" and "(AskPassword, raw) \<notin> set asked0"
    and "strip raw = []"
  shows "file_after (add_credentials file name idx asked0 inputs) = file
         \<and> writes (add_credentials file name idx asked0 inputs) = []"
  using assms by (auto simp: add_credentials_def Let_def split: list.splits)

lemma add_credentials_asked_name:
  "(AskTradeName, raw) \<in> set (asked (add_credentials file name idx asked0 inputs))
     \<longleftrightarrow> (AskTradeName, raw) \<in> set asked0"
  by (auto simp: add_credentials_def Let_def split: list.splits)

text \<open>
  C10. When the line read at the trade name, the username or the password prompt of
  \<open>add_new_account\<close> is empty after stripping, the run makes no call of
  \<open>update_env_variable\<close> and the file keeps its text.
\<close>

theorem rejected_add_writes_nothing:
  assumes "(AskTradeName, raw) \<in> set (asked (add_new_account file inputs))
           \<or> (AskUsername, raw) \<in> set (asked (add_new_account file inputs))
           \<or> (AskPassword, raw) \<in> set (asked (add_new_account file inputs))"
    and "strip raw = []"
  shows "file_after (add_new_account file inputs) = file \<and> writes (add_new_account file inputs) = []"
proof -
  obtain d n where dn: "get_account_mapping file = (d, n)" by (cases "get_account_mapping file")
  show ?thesis
  proof (cases inputs)
    case Nil
    then show ?thesis using dn by (simp add: add_new_account_def)
  next
    case (Cons raw_name inputs1)
    note inputs = this
    show ?thesis
    proof (cases "strip raw_name = []")
      case True
      then show ?thesis using dn inputs by (simp add: add_new_account_def)
    next
      case False
      note nonempty = this
      have rn: "raw \<noteq> raw_name" using False assms(2) by auto
      show ?thesis
      proof (cases "dict_get d (upper (remove_spaces (strip raw_name)))")
        case None
        then have eq: "add_new_account file inputs
            = add_credentials file (strip raw_name) (py_str n) [(AskTradeName, raw_name)] inputs1"
          using dn inputs nonempty by (simp add: add_new_account_def Let_def)
        show ?thesis
          using assms rn add_credentials_rejected [of raw "file" "strip raw_name" "py_str n"
              "[(AskTradeName, raw_name)]" inputs1]
          by (simp add: eq add_credentials_asked_name)
      next
        case (Some existing)
        show ?thesis
        proof (cases inputs1)
          case Nil
          then show ?thesis using dn inputs nonempty Some by (simp add: add_new_account_def Let_def)
        next
          case (Cons raw_ov inputs2)
          show ?thesis
          proof (cases "lower (strip raw_ov) = ''yes''")
            case False
            then show ?thesis using dn inputs Cons nonempty Some
              by (simp add: add_new_account_def Let_def)
          next
            case True
            then have eq: "add_new_account file inputs
                = add_credentials file (strip raw_name) existing
                    [(AskTradeName, raw_name), (AskOverwrite, raw_ov)] inputs2"
              using dn inputs Cons nonempty Some by (simp add: add_new_account_def Let_def)
            show ?thesis
              using assms rn add_credentials_rejected [of raw "file" "strip raw_name" existing
                  "[(AskTradeName, raw_name), (AskOverwrite, raw_ov)]" inputs2]
              by (simp add: eq add_credentials_asked_name)
          qed
        qed
      qed
    qed
  qed
qed

theorem rejected_add_writes_nothing_witness:
  "(AskPassword, ''   '') \<in> set (asked (add_new_account example_file [''Beta'', ''u2'', ''   '']))
   \<and> strip ''   '' = []
   \<and> file_after (add_new_account example_file [''Beta'', ''u2'', ''   '']) = example_file
   \<and> writes (add_new_account example_file [''Beta'', ''u2'', ''   '']) = []"
proof -
  have a: "(AskPassword, ''   '') \<in> set (asked (add_new_account example_file [''Beta'', ''u2'', ''   '']))"
    by (simp add: store_eval example_file_def)
  have b: "strip ''   '' = []"
    by (simp add: str_eval)
  show ?thesis
    using a b rejected_add_writes_nothing [of "''   ''" example_file "[''Beta'', ''u2'', ''   '']"]
    by blast
qed

section \<open>The login attempt: teardown, faults and classification\<close>

lemma has_marker_iff:
  "has_marker url \<longleftrightarrow> (\<exists>m \<in> {''dashboard'', ''home'', ''loggedin''}. \<exists>u v. url = u @ m @ v)"
  by (simp add: has_marker_def contains_def sublist_def)

lemma try_body_no_quit: "quit_count (snd (try_body w name)) = 0"
  by (auto simp: try_body_def quit_count_def split: option.splits sum.splits)

text \<open>
  Once \<open>driver.get(url)\<close> has returned, every way through the \<open>try\<close> statement, whatever
  raises in it, calls \<open>driver.quit()\<close> exactly once.
\<close>

lemma login_attempt_quits_once:
  assumes "start_browser w = None" "navigate w = None"
  shows "quit_count (snd (login_attempt w name)) = 1"
proof -
  obtain r p where rp: "try_body w name = (r, p)" by (cases "try_body w name")
  have np: "quit_count p = 0"
    using try_body_no_quit [of w name] rp by simp
  show ?thesis
  proof (cases r)
    case (Inl e)
    then show ?thesis using assms rp np
      by (cases e) (simp_all add: login_attempt_def quit_count_def)
  next
    case (Inr c)
    then show ?thesis using assms rp np
      by (simp add: login_attempt_def quit_count_def)
  qed
qed

text \<open>
  An \<open>Exception\<close> raised by a step of the form filling, lines 329 to 350, is reported with
  the account's name, and the loop goes on to the next prompt.
\<close>

lemma step_fault_is_reported:
  assumes "start_browser w = None" "navigate w = None"
    and "run_steps (step_fault w) form_steps = Some (Exception m)"
  shows "login_attempt w name
         = (Continue, [Print (msg_attempting name), DriverStarted, Print (msg_error name m), DriverQuit])"
  using assms by (simp add: login_attempt_def try_body_def)

text \<open>
  An exception of \<open>driver.get(url)\<close> leaves the attempt at once: nothing is reported and
  the session is not closed.
\<close>

lemma navigation_fault_propagates:
  assumes "start_browser w = None" "navigate w = Some e"
  shows "login_attempt w name = (Raise e, [Print (msg_attempting name), DriverStarted])"
    and "quit_count (snd (login_attempt w name)) = 0"
  using assms by (simp_all add: login_attempt_def quit_count_def)

text \<open>
  C1. The claim: in every attempt whose driver was constructed, \<open>driver.quit()\<close> is called
  exactly once, also when an exception is raised at any point from navigation on. In the
  code \<open>driver.get(url)\<close>, line 326, stands before the \<open>try\<close>: when it raises, the session
  that line 325 opened is never closed. The instance evaluates the attempt there.
\<close>

theorem navigation_fault_never_quits:
  "login_attempt ((session_ok login_url)\<lparr>navigate := Some (Exception ''ERR_INTERNET_DISCONNECTED'')\<rparr>)
     ''Acme Co''
     = (Raise (Exception ''ERR_INTERNET_DISCONNECTED''),
        [Print (msg_attempting ''Acme Co''), DriverStarted])
   \<and> quit_count (snd (login_attempt
        ((session_ok login_url)\<lparr>navigate := Some (Exception ''ERR_INTERNET_DISCONNECTED'')\<rparr>)
        ''Acme Co'')) = 0"
  by (simp add: login_attempt_def session_ok_def quit_count_def)

text \<open>
  C2. The claim: every exception from the opening of the session to the submit is caught,
  reported with the account's name and turned into a failure of the attempt, and the menu
  stays reachable. In the code an exception of \<open>driver.get(url)\<close> leaves
  \<open>perform_gst_login\<close>, and the main menu calls it under no \<open>try\<close>: the process ends, and
  the operator's next line, \<open>back\<close>, is never read.
\<close>

theorem navigation_fault_ends_process:
  "main_choice_2 True example_environ example_file
     [(''acme co'', (session_ok login_url)\<lparr>navigate := Some (Exception ''ERR_INTERNET_DISCONNECTED'')\<rparr>),
      (''back'', session_ok login_url)]
     = Terminated (Exception ''ERR_INTERNET_DISCONNECTED'')
   \<and> Print (msg_error ''Acme Co'' ''ERR_INTERNET_DISCONNECTED'')
       \<notin> set (snd (perform_gst_login True example_environ example_file
            [(''acme co'', (session_ok login_url)\<lparr>navigate := Some (Exception ''ERR_INTERNET_DISCONNECTED'')\<rparr>),
             (''back'', session_ok login_url)]))"
  by (simp add: store_eval login_eval session_ok_def login_url_def example_environ_def
      example_file_def)

text \<open>
  C7. When the form has been submitted and the location read, the attempt reports success
  exactly when the location contains \<open>dashboard\<close>, \<open>home\<close> or \<open>loggedin\<close>, and failure
  otherwise; on failure the attempt ends normally, with the hint to try again printed and
  the session closed, whether or not the lookup of the error-message element raises.
\<close>

theorem outcome_by_markers:
  assumes "start_browser w = None" and "navigate w = None"
    and "run_steps (step_fault w) form_steps = None" and "current_url w = Inr url"
  shows "(Print (msg_success name) \<in> set (snd (login_attempt w name))
            \<longleftrightarrow> (\<exists>m \<in> {''dashboard'', ''home'', ''loggedin''}. \<exists>u v. url = u @ m @ v))
       \<and> (Print (msg_failed name) \<in> set (snd (login_attempt w name))
            \<longleftrightarrow> \<not> (\<exists>m \<in> {''dashboard'', ''home'', ''loggedin''}. \<exists>u v. url = u @ m @ v))
       \<and> (Print (msg_failed name) \<in> set (snd (login_attempt w name))
            \<longrightarrow> fst (login_attempt w name) = Continue
                \<and> Print msg_check \<in> set (snd (login_attempt w name))
                \<and> quit_count (snd (login_attempt w name)) = 1)"
proof -
  note m = has_marker_iff [of url]
  have ne: "msg_success name \<noteq> msg_failed name" "msg_success name \<noteq> msg_attempting name"
    "msg_failed name \<noteq> msg_attempting name" "msg_failed name \<noteq> msg_check"
    "msg_success name \<noteq> msg_check" "\<And>e. msg_success name \<noteq> msg_error name e"
    "\<And>e. msg_failed name \<noteq> msg_error name e" "\<And>t. msg_success name \<noteq> ''Error message: '' @ t"
    "\<And>t. msg_failed name \<noteq> ''Error message: '' @ t"
    by (simp_all add: msg_success_def msg_failed_def msg_attempting_def msg_check_def msg_error_def)
  show ?thesis
  proof (cases "has_marker url")
    case True
    then show ?thesis using assms m ne
      by (cases "keep_open w"; cases "the (keep_open w)")
         (simp_all add: login_attempt_def try_body_def)
  next
    case False
    then show ?thesis using assms m ne
      by (cases "error_message w") (simp_all add: login_attempt_def try_body_def quit_count_def)
  qed
qed

theorem outcome_by_markers_witness:
  "Print (msg_success ''Acme Co'')
     \<in> set (snd (login_attempt (session_ok ''https://services.gst.gov.in/services/auth/dashboard'') ''Acme Co''))
   \<and> Print (msg_failed ''Acme Co'') \<in> set (snd (login_attempt (session_ok login_url) ''Acme Co''))
   \<and> fst (login_attempt (session_ok login_url) ''Acme Co'') = Continue
   \<and> quit_count (snd (login_attempt (session_ok login_url) ''Acme Co'')) = 1"
proof -
  have h: "start_browser (session_ok url) = None" "navigate (session_ok url) = None"
    "run_steps (step_fault (session_ok url)) form_steps = None"
    "current_url (session_ok url) = Inr url" for url
    by (simp_all add: session_ok_def form_steps_def)
  have "''https://services.gst.gov.in/services/auth/dashboard''
        = ''https://services.gst.gov.in/services/auth/'' @ ''dashboard'' @ []"
    by simp
  then have yes: "\<exists>m \<in> {''dashboard'', ''home'', ''loggedin''}.
      \<exists>u v. ''https://services.gst.gov.in/services/auth/dashboard'' = u @ m @ v"
    by blast
  have "\<not> has_marker login_url"
    by (simp add: has_marker_def contains_def login_url_def sublist_code)
  then have no: "\<not> (\<exists>m \<in> {''dashboard'', ''home'', ''loggedin''}. \<exists>u v. login_url = u @ m @ v)"
    using has_marker_iff [of login_url] by blast
  note A = outcome_by_markers [OF h [of "''https://services.gst.gov.in/services/auth/dashboard''"],
      of "''Acme Co''"]
  note B = outcome_by_markers [OF h [of login_url], of "''Acme Co''"]
  have s: "Print (msg_success ''Acme Co'')
     \<in> set (snd (login_attempt (session_ok ''https://services.gst.gov.in/services/auth/dashboard'') ''Acme Co''))"
    by (rule iffD2 [OF conjunct1 [OF A] yes])
  have f: "Print (msg_failed ''Acme Co'') \<in> set (snd (login_attempt (session_ok login_url) ''Acme Co''))"
    by (rule iffD2 [OF conjunct1 [OF conjunct2 [OF B]] no])
  note g = mp [OF conjunct2 [OF conjunct2 [OF B]] f]
  show ?thesis
    using s f conjunct1 [OF g] conjunct2 [OF conjunct2 [OF g]] by (intro conjI)
qed

section \<open>Resolving a trade name\<close>

subsection \<open>Characters\<close>

lemma of_char_upper_char:
  "(of_char (upper_char c) :: nat) = (if 97 \<le> (of_char c :: nat) \<and> (of_char c :: nat) \<le> 122 then of_char c - 32 else of_char c)"
  by (auto simp add: upper_char_def Let_def)

lemma upper_char_idem: "upper_char (upper_char c) = upper_char c"
proof -
  have "(of_char (upper_char (upper_char c)) :: nat) = of_char (upper_char c)"
    by (auto simp add: of_char_upper_char)
  then show ?thesis by simp
qed

lemma is_space_upper_char: "is_space (upper_char c) = is_space c"
  by (auto simp add: is_space_def of_char_upper_char Let_def)

lemma of_char_space: "(of_char c :: nat) = 32 \<longleftrightarrow> c = CHR '' ''"
proof
  assume "(of_char c :: nat) = 32"
  then have "(of_char c :: nat) = of_char (CHR '' '')" by simp
  then show "c = CHR '' ''" by (simp only: of_char_eq_iff)
qed simp

lemma upper_char_space: "upper_char c = CHR '' '' \<longleftrightarrow> c = CHR '' ''"
proof -
  have "upper_char c = CHR '' '' \<longleftrightarrow> (of_char (upper_char c) :: nat) = 32"
    by (simp only: of_char_space)
  also have "\<dots> \<longleftrightarrow> (of_char c :: nat) = 32"
    by (auto simp: of_char_upper_char)
  finally show ?thesis by (simp only: of_char_space)
qed

lemma upper_char_eq_space:
  "upper_char c = upper_char c' \<Longrightarrow> (c = CHR '' '') = (c' = CHR '' '')"
  by (metis upper_char_space)

lemma is_space_space: "is_space (CHR '' '')"
  by (simp add: is_space_def)

subsection \<open>Stripping commutes with the normalization\<close>

lemma filter_dropWhile_space:
  "(\<And>c. \<not> is_space c \<Longrightarrow> P c) \<Longrightarrow> filter P (dropWhile is_space s) = dropWhile is_space (filter P s)"
  by (induction s) auto

lemma not_space_not_blank: "\<not> is_space c \<Longrightarrow> c \<noteq> CHR '' ''"
  using is_space_space by auto

lemma dropWhile_map_upper: "dropWhile is_space (map upper_char s) = map upper_char (dropWhile is_space s)"
  by (induction s) (auto simp: is_space_upper_char)

lemma squash_lstrip: "squash (lstrip s) = lstrip (squash s)"
  by (simp add: squash_def lstrip_def dropWhile_map_upper filter_dropWhile_space not_space_not_blank)

lemma squash_rev: "squash (rev s) = rev (squash s)"
  by (simp add: squash_def rev_map rev_filter)

lemma squash_rstrip: "squash (rstrip s) = rstrip (squash s)"
proof -
  have "squash (rstrip s) = rev (squash (lstrip (rev s)))"
    by (simp add: rstrip_def lstrip_def squash_rev)
  also have "\<dots> = rev (lstrip (rev (squash s)))"
    by (simp add: squash_lstrip squash_rev)
  finally show ?thesis by (simp add: rstrip_def lstrip_def)
qed

lemma squash_strip: "squash (strip s) = strip (squash s)"
  by (simp add: strip_def squash_lstrip squash_rstrip)

lemma normalized_strip: "normalized_account_name (strip s) = strip (squash s)"
  using squash_strip [of s] by (simp add: normalized_account_name_def upper_def remove_spaces_def squash_def)

lemma strip_leading: "is_space c \<Longrightarrow> strip (c # s) = strip s"
  by (simp add: strip_def lstrip_def)

lemma strip_trailing:
  assumes "is_space c" shows "strip (s @ [c]) = strip s"
proof (cases "\<forall>x\<in>set s. is_space x")
  case True
  then have "dropWhile is_space s = []" by simp
  then show ?thesis using assms True by (simp add: strip_def lstrip_def rstrip_def del: dropWhile_eq_Nil_conv)
next
  case False
  then obtain x where "x \<in> set s" "\<not> is_space x" by blast
  then have "dropWhile is_space (s @ [c]) = dropWhile is_space s @ [c]"
    by (rule dropWhile_append1)
  then show ?thesis using assms by (simp add: strip_def lstrip_def rstrip_def)
qed

lemma squash_idem: "squash (squash s) = squash s"
  by (induction s) (auto simp: squash_def upper_char_idem upper_char_space)

lemma lstrip_idem: "lstrip (lstrip s) = lstrip s"
  by (simp add: lstrip_def dropWhile_idem)

lemma rstrip_idem: "rstrip (rstrip s) = rstrip s"
  by (simp add: rstrip_def dropWhile_idem)

lemma lstrip_rstrip: "lstrip (rstrip s) = rstrip (lstrip s)"
proof (induction s)
  case Nil
  show ?case by (simp add: lstrip_def rstrip_def)
next
  case (Cons c s)
  show ?case
  proof (cases "is_space c")
    case True
    have "rstrip (c # s) = (if \<forall>x\<in>set s. is_space x then [] else c # rstrip s)"
      using True by (auto simp: rstrip_def dropWhile_append)
    moreover have "rstrip (lstrip s) = []" if "\<forall>x\<in>set s. is_space x"
    proof -
      have "dropWhile is_space s = []" using that by simp
      then show ?thesis by (simp add: lstrip_def rstrip_def del: dropWhile_eq_Nil_conv)
    qed
    ultimately show ?thesis using True Cons by (auto simp: lstrip_def)
  next
    case False
    have "rstrip (c # s) = c # rstrip s"
      using False by (auto simp: rstrip_def dropWhile_append)
    then show ?thesis using False by (simp add: lstrip_def)
  qed
qed

lemma strip_idem: "strip (strip s) = strip s"
proof -
  have "strip (strip s) = rstrip (rstrip (lstrip (lstrip s)))"
    by (simp add: strip_def lstrip_rstrip)
  then show ?thesis by (simp add: strip_def lstrip_idem rstrip_idem)
qed

lemma variant_normalized:
  "same_up_to_case_and_spaces a b \<Longrightarrow> normalized_account_name (strip a) = normalized_account_name (strip b)"
proof (induction rule: same_up_to_case_and_spaces.induct)
  case (letter_case c c' u v)
  then have "squash (u @ c # v) = squash (u @ c' # v)"
    using upper_char_eq_space [of c c'] by (simp add: squash_def)
  then show ?case by (simp add: normalized_strip)
next
  case (space u v)
  have "squash (u @ v) = squash (u @ CHR '' '' # v)" by (simp add: squash_def)
  then show ?case by (simp add: normalized_strip)
next
  case (leading c s)
  then show ?case
    by (cases "c = CHR '' ''") (simp_all add: normalized_strip squash_def strip_leading is_space_upper_char)
next
  case (trailing c s)
  then show ?case
    by (cases "c = CHR '' ''") (simp_all add: normalized_strip squash_def strip_trailing is_space_upper_char)
qed simp_all

subsection \<open>The normal form of a string is one of its variants\<close>

lemma variant_upper_ctx: "same_up_to_case_and_spaces (u @ map upper_char s) (u @ s)"
proof (induction s arbitrary: u)
  case Nil
  show ?case by (simp add: same)
next
  case (Cons c s)
  have "same_up_to_case_and_spaces ((u @ [upper_char c]) @ map upper_char s) ((u @ [upper_char c]) @ s)"
    by (rule Cons.IH)
  moreover have "same_up_to_case_and_spaces (u @ upper_char c # s) (u @ c # s)"
    by (rule letter_case) (rule upper_char_idem)
  ultimately show ?case using chain by simp
qed

lemma variant_remove_spaces_ctx: "same_up_to_case_and_spaces (u @ remove_spaces s) (u @ s)"
proof (induction s arbitrary: u)
  case Nil
  show ?case by (simp add: same remove_spaces_def)
next
  case (Cons c s)
  show ?case
  proof (cases "c = CHR '' ''")
    case True
    have "same_up_to_case_and_spaces (u @ remove_spaces s) (u @ CHR '' '' # remove_spaces s)"
      by (rule space)
    moreover have "same_up_to_case_and_spaces ((u @ [CHR '' '']) @ remove_spaces s) ((u @ [CHR '' '']) @ s)"
      by (rule Cons.IH)
    ultimately show ?thesis using True chain by (simp add: remove_spaces_def)
  next
    case False
    have "same_up_to_case_and_spaces ((u @ [c]) @ remove_spaces s) ((u @ [c]) @ s)"
      by (rule Cons.IH)
    then show ?thesis using False by (simp add: remove_spaces_def)
  qed
qed

lemma variant_lstrip: "same_up_to_case_and_spaces (lstrip s) s"
proof (induction s)
  case Nil
  show ?case by (simp add: same lstrip_def)
next
  case (Cons c s)
  show ?case
  proof (cases "is_space c")
    case True
    then have "same_up_to_case_and_spaces s (c # s)" by (rule leading)
    then show ?thesis using True Cons chain by (simp add: lstrip_def)
  next
    case False
    then show ?thesis by (simp add: lstrip_def same)
  qed
qed

lemma variant_rstrip: "same_up_to_case_and_spaces (rstrip s) s"
proof (induction s rule: rev_induct)
  case Nil
  show ?case by (simp add: same rstrip_def)
next
  case (snoc c s)
  show ?case
  proof (cases "is_space c")
    case True
    then have "same_up_to_case_and_spaces s (s @ [c])" by (rule trailing)
    moreover have "rstrip (s @ [c]) = rstrip s" using True by (simp add: rstrip_def)
    ultimately show ?thesis using snoc chain by simp
  next
    case False
    then show ?thesis by (simp add: rstrip_def same)
  qed
qed

lemma variant_normalized_form: "same_up_to_case_and_spaces (normalized_account_name (strip s)) s"
proof -
  have 1: "same_up_to_case_and_spaces (strip s) s"
    using variant_rstrip [of "lstrip s"] variant_lstrip [of s] chain by (simp add: strip_def)
  have 2: "same_up_to_case_and_spaces (remove_spaces (strip s)) (strip s)"
    using variant_remove_spaces_ctx [of "[]" "strip s"] by simp
  have 3: "same_up_to_case_and_spaces (upper (remove_spaces (strip s))) (remove_spaces (strip s))"
    using variant_upper_ctx [of "[]" "remove_spaces (strip s)"] by (simp add: upper_def)
  show ?thesis
    unfolding normalized_account_name_def using 1 2 3 chain by blast
qed

lemma variant_if_normalized_equal:
  assumes "normalized_account_name (strip a) = normalized_account_name (strip b)"
  shows "same_up_to_case_and_spaces a b"
proof -
  have "same_up_to_case_and_spaces a (normalized_account_name (strip a))"
    by (rule swap) (rule variant_normalized_form)
  then have "same_up_to_case_and_spaces a (normalized_account_name (strip b))"
    using assms by simp
  then show ?thesis using variant_normalized_form [of b] chain by blast
qed

text \<open>The relation is decided by comparing normal forms.\<close>

lemma same_up_to_case_and_spaces_iff [code]:
  "same_up_to_case_and_spaces a b
   \<longleftrightarrow> normalized_account_name (strip a) = normalized_account_name (strip b)"
  using variant_normalized variant_if_normalized_equal by blast

text \<open>
  C3, as stated: resolve gives the same result for every two inputs that differ only in
  letter casing and in whitespace, leading, trailing or internal. The code removes inner
  characters with \<open>replace(" ", "")\<close>, which takes out the space character only: with
  \<open>Acme Co\<close> stored, the input \<open>Acme<TAB>Co\<close> differs from it only in whitespace and is
  not found.
\<close>

theorem resolve_internal_tab_counterexample:
  "same_up_to_case_and_whitespace (''Acme'' @ [CHR 0x09] @ ''Co'') ''Acme Co''
   \<and> resolve example_file ''Acme Co'' = Some ''1''
   \<and> resolve example_file (''Acme'' @ [CHR 0x09] @ ''Co'') = None"
  by (simp add: store_eval example_file_def same_up_to_case_and_whitespace_def)

text \<open>
  C3, amended: resolve gives the same result for every two inputs that differ only in the
  case of letters, in space characters anywhere, and in whitespace of any kind at the two
  ends; and normalizing a normalized name changes nothing.
\<close>

theorem resolve_insensitive_to_case_and_spaces:
  "(same_up_to_case_and_spaces a b \<longrightarrow> resolve file a = resolve file b)
   \<and> normalized_account_name (strip (normalized_account_name (strip s))) = normalized_account_name (strip s)"
proof
  show "same_up_to_case_and_spaces a b \<longrightarrow> resolve file a = resolve file b"
    by (simp add: resolve_def variant_normalized)
next
  have "normalized_account_name (strip (normalized_account_name (strip s)))
        = strip (squash (strip (squash s)))"
    by (simp only: normalized_strip)
  also have "\<dots> = strip (strip (squash (squash s)))"
    by (simp only: squash_strip)
  also have "\<dots> = strip (squash s)"
    by (simp only: squash_idem strip_idem)
  finally show "normalized_account_name (strip (normalized_account_name (strip s))) = normalized_account_name (strip s)"
    by (simp only: normalized_strip)
qed

theorem resolve_insensitive_witness:
  "same_up_to_case_and_spaces '' acme co '' ''Acme Co''
   \<and> same_up_to_case_and_spaces ''ACMECO'' ''Acme Co''
   \<and> resolve example_file '' acme co '' = Some ''1''
   \<and> resolve example_file ''ACMECO'' = Some ''1''
   \<and> resolve example_file ''Acme Co'' = Some ''1''"
proof -
  have a: "same_up_to_case_and_spaces '' acme co '' ''Acme Co''"
    by (rule variant_if_normalized_equal) (simp add: store_eval)
  have b: "same_up_to_case_and_spaces ''ACMECO'' ''Acme Co''"
    by (rule variant_if_normalized_equal) (simp add: store_eval)
  have c: "resolve example_file ''Acme Co'' = Some ''1''"
    by (simp add: store_eval example_file_def)
  note t1 = mp [OF conjunct1 [OF resolve_insensitive_to_case_and_spaces [of "'' acme co ''" "''Acme Co''" example_file "[]"]] a]
  note t2 = mp [OF conjunct1 [OF resolve_insensitive_to_case_and_spaces [of "''ACMECO''" "''Acme Co''" example_file "[]"]] b]
  show ?thesis using a b c t1 t2 by simp
qed


section \<open>Reading and writing lines\<close>

lemma complete_lineE:
  assumes "complete_line l" obtains b where "l = b @ [newline]" "newline \<notin> set b"
proof -
  from assms have "l = butlast l @ [newline]" "newline \<notin> set (butlast l)"
    by (auto simp: complete_line_def dest: append_butlast_last_id)
  then show ?thesis using that by blast
qed

lemma readlines_line: "newline \<notin> set b \<Longrightarrow> readlines (b @ newline # rest) = (b @ [newline]) # readlines rest"
  by (induction b) auto

lemma readlines_partial: "partial_line b \<Longrightarrow> readlines b = [b]"
proof (induction b)
  case Nil
  then show ?case by (simp add: partial_line_def)
next
  case (Cons c b)
  then show ?case by (cases b) (auto simp: partial_line_def)
qed

lemma lines_ok_Cons: "complete_line l \<Longrightarrow> lines_ok ls \<Longrightarrow> lines_ok (l # ls)"
  by (cases ls) auto

lemma readlines_concat: "lines_ok ls \<Longrightarrow> readlines (concat ls) = ls"
proof (induction ls rule: lines_ok.induct)
  case 1
  show ?case by simp
next
  case (2 l)
  then have "complete_line l \<or> partial_line l" by simp
  then show ?case
  proof
    assume "complete_line l"
    then obtain b where "l = b @ [newline]" "newline \<notin> set b" by (rule complete_lineE)
    then show ?thesis using readlines_line [of b "[]"] by simp
  next
    assume "partial_line l"
    then show ?thesis by (simp add: readlines_partial)
  qed
next
  case (3 l l' ls)
  then have c: "complete_line l" and ok: "lines_ok (l' # ls)" by simp_all
  from c obtain b where b: "l = b @ [newline]" "newline \<notin> set b" by (rule complete_lineE)
  have "readlines (concat (l # l' # ls)) = readlines (b @ newline # concat (l' # ls))"
    using b by simp
  also have "\<dots> = l # readlines (concat (l' # ls))"
    using b readlines_line [of b "concat (l' # ls)"] by simp
  finally show ?case using 3 ok by simp
qed

lemma concat_readlines: "concat (readlines s) = s"
  by (induction s) (auto split: list.splits)

lemma readlines_Nil_iff: "readlines s = [] \<longleftrightarrow> s = []"
  by (cases s) (auto split: list.splits)

lemma complete_line_Cons: "c \<noteq> newline \<Longrightarrow> complete_line (c # l) \<longleftrightarrow> complete_line l"
  by (cases l) (auto simp: complete_line_def)

lemma complete_newline: "complete_line [newline]"
  by (simp add: complete_line_def)

lemma lines_ok_readlines: "lines_ok (readlines s)"
proof (induction s)
  case Nil
  show ?case by simp
next
  case (Cons c s)
  note IH = Cons.IH
  show ?case
  proof (cases "c = newline")
    case True
    then show ?thesis using IH complete_newline by (simp add: lines_ok_Cons)
  next
    case False
    show ?thesis
    proof (cases "readlines s")
      case Nil
      then show ?thesis using False by (simp add: partial_line_def)
    next
      case (Cons l ls)
      then show ?thesis using IH False
        by (cases ls) (auto simp: complete_line_Cons partial_line_def)
    qed
  qed
qed

lemma all_complete_iff_terminated: "(\<forall>l \<in> set (readlines s). complete_line l) \<longleftrightarrow> terminated s"
proof (induction s)
  case Nil
  show ?case by (simp add: terminated_def)
next
  case (Cons c s)
  note IH = Cons.IH
  show ?case
  proof (cases "c = newline")
    case True
    then show ?thesis using IH complete_newline by (auto simp: terminated_def)
  next
    case False
    show ?thesis
    proof (cases "readlines s")
      case Nil
      then have "s = []" by (simp add: readlines_Nil_iff)
      then show ?thesis using False by (simp add: terminated_def complete_line_def)
    next
      case (Cons l ls)
      then have "s \<noteq> []" by auto
      then show ?thesis using IH False Cons
        by (simp add: terminated_def complete_line_Cons)
    qed
  qed
qed

lemma lines_ok_append_complete:
  "(\<forall>l \<in> set ls. complete_line l) \<Longrightarrow> lines_ok ls' \<Longrightarrow> lines_ok (ls @ ls')"
  by (induction ls) (auto simp: lines_ok_Cons)

lemma lines_ok_map:
  assumes "lines_ok ls" and "\<And>l. l \<in> set ls \<Longrightarrow> g l = l \<or> complete_line (g l)"
  shows "lines_ok (map g ls)"
  using assms
proof (induction ls rule: lines_ok.induct)
  case 1
  show ?case by simp
next
  case (2 l)
  then show ?case by auto
next
  case (3 l l' ls)
  have c: "complete_line l" and ok: "lines_ok (l' # ls)" using "3.prems"(1) by simp_all
  have "g l = l \<or> complete_line (g l)" using "3.prems"(2) [of l] by simp
  then have "complete_line (g l)" using c by auto
  moreover have "lines_ok (map g (l' # ls))" using "3.IH" ok "3.prems"(2) by simp
  ultimately show ?case using lines_ok_Cons [of "g l" "map g (l' # ls)"] by simp
qed

lemma lines_ok_filter: "lines_ok ls \<Longrightarrow> lines_ok (filter P ls)"
proof (induction ls rule: lines_ok.induct)
  case 1
  show ?case by simp
next
  case (2 l)
  then show ?case by simp
next
  case (3 l l' ls)
  have c: "complete_line l" and ok: "lines_ok (l' # ls)" using "3.prems" by simp_all
  have f: "lines_ok (filter P (l' # ls))" using "3.IH" ok by simp
  show ?case
  proof (cases "P l")
    case True
    then have "filter P (l # l' # ls) = l # filter P (l' # ls)" by simp
    then show ?thesis using c f lines_ok_Cons by metis
  next
    case False
    then have "filter P (l # l' # ls) = filter P (l' # ls)" by simp
    then show ?thesis using f by metis
  qed
qed


section \<open>\<open>update_env_variable\<close> on the lines of the file\<close>

lemma update_loop_map:
  "update_loop key v lines (acc, u)
   = (acc @ map (rewrite_line key v) lines, u \<or> (\<exists>l \<in> set lines. is_key_line key l))"
  by (induction lines arbitrary: acc u) (auto simp: rewrite_line_def is_key_line_def)

lemma update_env_variable_text:
  "update_env_variable key v file
   = concat (map (rewrite_line key v) (readlines file) @ (if has_key key file then [] else [env_line key v]))"
  by (auto simp add: update_env_variable_def update_loop_map writelines_def has_key_def Let_def)

lemma complete_env_line:
  "newline \<notin> set key \<Longrightarrow> newline \<notin> set v \<Longrightarrow> complete_line (env_line key v)"
  by (simp add: complete_line_def env_line_def newline_def butlast_append)

lemma lines_ok_rewrite:
  assumes "newline \<notin> set key" "newline \<notin> set v"
  shows "lines_ok (map (rewrite_line key v) (readlines file))"
  by (rule lines_ok_map [OF lines_ok_readlines])
     (simp add: rewrite_line_def complete_env_line [OF assms])

lemma map_rewrite_absent:
  "\<not> has_key key file \<Longrightarrow> map (rewrite_line key v) (readlines file) = readlines file"
  by (simp add: has_key_def rewrite_line_def map_idI)

text \<open>A key that has a line is rewritten where it stands, and the file keeps its lines.\<close>

lemma readlines_update_present:
  assumes "has_key key file" "newline \<notin> set key" "newline \<notin> set v"
  shows "readlines (update_env_variable key v file) = map (rewrite_line key v) (readlines file)"
proof -
  have "update_env_variable key v file = concat (map (rewrite_line key v) (readlines file))"
    using assms(1) by (simp add: update_env_variable_text)
  then show ?thesis
    using readlines_concat [OF lines_ok_rewrite [OF assms(2,3)]] by simp
qed

text \<open>A key that has no line gets a new last line, when the text ends with a line end.\<close>

lemma readlines_update_absent:
  assumes "\<not> has_key key file" "terminated file" "newline \<notin> set key" "newline \<notin> set v"
  shows "readlines (update_env_variable key v file) = readlines file @ [env_line key v]"
proof -
  have "\<forall>l \<in> set (readlines file). complete_line l"
    using assms(2) by (simp add: all_complete_iff_terminated)
  then have "lines_ok (readlines file @ [env_line key v])"
    using complete_env_line [OF assms(3,4)] by (simp add: lines_ok_append_complete)
  then have "readlines (concat (readlines file @ [env_line key v])) = readlines file @ [env_line key v]"
    by (rule readlines_concat)
  moreover have "update_env_variable key v file = concat (readlines file @ [env_line key v])"
    using assms(1) by (simp add: update_env_variable_text map_rewrite_absent)
  ultimately show ?thesis by simp
qed

lemma lines_ok_split:
  "lines_ok ls \<Longrightarrow> (\<forall>l \<in> set ls. complete_line l)
     \<or> (\<exists>ls' p. ls = ls' @ [p] \<and> (\<forall>l \<in> set ls'. complete_line l) \<and> partial_line p)"
proof (induction ls rule: lines_ok.induct)
  case 1
  show ?case by simp
next
  case (2 l)
  then show ?case by auto
next
  case (3 l l' ls)
  have c: "complete_line l" and ok: "lines_ok (l' # ls)" using "3.prems" by simp_all
  from "3.IH" [OF ok] show ?case
  proof
    assume "\<forall>x \<in> set (l' # ls). complete_line x"
    then show ?thesis using c by simp
  next
    assume "\<exists>ls' p. l' # ls = ls' @ [p] \<and> (\<forall>x \<in> set ls'. complete_line x) \<and> partial_line p"
    then obtain ls' p where "l' # ls = ls' @ [p]" "\<forall>x \<in> set ls'. complete_line x" "partial_line p"
      by blast
    then have "l # l' # ls = (l # ls') @ [p] \<and> (\<forall>x \<in> set (l # ls'). complete_line x) \<and> partial_line p"
      using c by simp
    then show ?thesis by blast
  qed
qed

text \<open>
  A key that has no line, in a text that does not end with a line end: the new entry is
  joined to the last line of the file.
\<close>

lemma readlines_update_absent_unterminated:
  assumes "\<not> has_key key file" "\<not> terminated file" "newline \<notin> set key" "newline \<notin> set v"
  shows "readlines (update_env_variable key v file)
         = butlast (readlines file) @ [last (readlines file) @ env_line key v]"
proof -
  have "\<not> (\<forall>l \<in> set (readlines file). complete_line l)"
    using assms(2) by (simp add: all_complete_iff_terminated)
  then obtain ls p where lp: "readlines file = ls @ [p]" "\<forall>l \<in> set ls. complete_line l" "partial_line p"
    using lines_ok_split [OF lines_ok_readlines] by blast
  have "complete_line (p @ env_line key v)"
    using lp(3) assms(3,4)
    by (simp add: complete_line_def partial_line_def env_line_def newline_def butlast_append)
  then have ok: "lines_ok (ls @ [p @ env_line key v])"
    using lp(2) by (simp add: lines_ok_append_complete)
  have "map (rewrite_line key v) (readlines file) = ls @ [p]"
    using map_rewrite_absent [OF assms(1), of v] lp(1) by simp
  then have "update_env_variable key v file = concat (ls @ [p @ env_line key v])"
    using assms(1) by (simp add: update_env_variable_text)
  then show ?thesis using readlines_concat [OF ok] lp(1) by simp
qed

text \<open>
  C8. The claim: for every file state and key, the update rewrites in place the lines of the
  key, appends one new line when there is none, and keeps every other line as it is. In the
  code the new entry is appended to the list of lines read, and \<open>writelines\<close> puts no line
  end between them: when the last line of the file has none, the entry is joined to it.
  The instance: the last line \<open>GST_PSSWD_1="p1"\<close> is not kept, and no line of the key
  \<open>Trade_Name_2\<close> is added.
\<close>

theorem append_joins_unterminated_last_line:
  "readlines unterminated_file
     = [env_line ''Trade_Name_1'' ''Acme Co'', env_line ''GST_UserID_1'' ''u1'', ''GST_PSSWD_1=\"p1\"'']
   \<and> readlines (update_env_variable ''Trade_Name_2'' ''Beta'' unterminated_file)
     = [env_line ''Trade_Name_1'' ''Acme Co'', env_line ''GST_UserID_1'' ''u1'',
        ''GST_PSSWD_1=\"p1\"Trade_Name_2=\"Beta\"'' @ [newline]]"
  by (simp add: store_eval lines_eval unterminated_file_def)


section \<open>Adding and updating accounts\<close>

subsection \<open>The index of an add\<close>

lemma add_credentials_added:
  assumes "outcome (add_credentials file name idx asked0 inputs) = Added idx'"
  shows "idx' = idx
       \<and> (\<exists>raw_username raw_password rest. inputs = raw_username # raw_password # rest
            \<and> writes (add_credentials file name idx asked0 inputs)
                = [(TRADE_NAME_PREFIX @ idx, name), (USER_ID_PREFIX @ idx, strip raw_username),
                   (PASSWORD_PREFIX @ idx, strip raw_password)]
            \<and> file_after (add_credentials file name idx asked0 inputs)
                = update_env_variable (PASSWORD_PREFIX @ idx) (strip raw_password)
                    (update_env_variable (USER_ID_PREFIX @ idx) (strip raw_username)
                      (update_env_variable (TRADE_NAME_PREFIX @ idx) name file)))"
  using assms by (auto simp: add_credentials_def Let_def split: list.splits if_splits)

lemma add_new_account_index:
  assumes "outcome (add_new_account file inputs) = Added idx"
  shows "\<exists>raw_name rest. inputs = raw_name # rest
          \<and> idx = (case resolve file raw_name of
                     Some existing_index \<Rightarrow> existing_index
                   | None \<Rightarrow> py_str (next_index file))
          \<and> fst (hd (writes (add_new_account file inputs))) = TRADE_NAME_PREFIX @ idx"
proof -
  obtain d n where dn: "get_account_mapping file = (d, n)" by (cases "get_account_mapping file")
  obtain raw_name rest where inputs: "inputs = raw_name # rest"
    using assms dn by (cases inputs) (auto simp: add_new_account_def)
  have ne: "strip raw_name \<noteq> []"
    using assms dn inputs by (auto simp: add_new_account_def Let_def split: if_splits)
  show ?thesis
  proof (cases "dict_get d (upper (remove_spaces (strip raw_name)))")
    case None
    then have eq: "add_new_account file inputs
        = add_credentials file (strip raw_name) (py_str n) [(AskTradeName, raw_name)] rest"
      using dn inputs ne by (simp add: add_new_account_def Let_def)
    have "resolve file raw_name = None"
      using None dn by (simp add: resolve_def normalized_account_name_def)
    then show ?thesis
      using add_credentials_added [of "file" "strip raw_name" "py_str n" "[(AskTradeName, raw_name)]" rest idx]
        assms eq dn inputs by (auto simp: next_index_def)
  next
    case (Some existing)
    then obtain raw_ov rest2 where rest: "rest = raw_ov # rest2" and yes: "lower (strip raw_ov) = ''yes''"
      using assms dn inputs ne
      by (cases rest) (auto simp: add_new_account_def Let_def split: if_splits)
    then have eq: "add_new_account file inputs
        = add_credentials file (strip raw_name) existing
            [(AskTradeName, raw_name), (AskOverwrite, raw_ov)] rest2"
      using dn inputs ne Some by (simp add: add_new_account_def Let_def)
    have "resolve file raw_name = Some existing"
      using Some dn by (simp add: resolve_def normalized_account_name_def)
    then show ?thesis
      using add_credentials_added [of "file" "strip raw_name" existing
          "[(AskTradeName, raw_name), (AskOverwrite, raw_ov)]" rest2 idx]
        assms eq inputs by auto
  qed
qed

lemma of_char_digit: "n < 10 \<Longrightarrow> (of_char (char_of (48 + n)) :: nat) = 48 + n"
  by simp

lemma py_str_digits: "\<forall>c \<in> set (py_str n). is_digit c"
proof (induction n rule: py_str.induct)
  case (1 n)
  show ?case
  proof (cases "n < 10")
    case True
    then show ?thesis by (subst py_str.simps) (simp add: is_digit_def)
  next
    case False
    have "n mod 10 < 10" by simp
    then have "is_digit (char_of (48 + n mod 10))"
      unfolding is_digit_def Let_def using of_char_digit [of "n mod 10"] by simp
    then show ?thesis using False 1 by (subst py_str.simps) simp
  qed
qed

lemma py_int_snoc: "py_int (s @ [c]) = 10 * py_int s + (of_char c - 48)"
  by (simp add: py_int_def)

lemma py_int_py_str: "py_int (py_str n) = n"
proof (induction n rule: py_str.induct)
  case (1 n)
  show ?case
  proof (cases "n < 10")
    case True
    then show ?thesis by (subst py_str.simps) (simp add: py_int_def)
  next
    case False
    have "py_int (py_str n) = 10 * py_int (py_str (n div 10)) + (of_char (char_of (48 + n mod 10)) - 48)"
      using False by (subst py_str.simps) (simp add: py_int_snoc)
    also have "\<dots> = 10 * (n div 10) + n mod 10"
      using False 1 of_char_digit [of "n mod 10"] by simp
    finally show ?thesis by simp
  qed
qed

lemma py_str_nonempty: "py_str n \<noteq> []"
  by (subst py_str.simps) simp

lemma digit_not_newline: "is_digit c \<Longrightarrow> c \<noteq> newline"
  by (auto simp: is_digit_def newline_def)

lemma py_str_no_newline: "newline \<notin> set (py_str n)"
  using py_str_digits [of n] digit_not_newline by blast

subsection \<open>The frame of \<open>update_env_variable\<close>\<close>

lemma strip_keeps:
  assumes "s \<noteq> []" "\<not> is_space (hd s)" "\<not> is_space (last s)"
  shows "strip s = s"
proof -
  have l: "lstrip s = s" using assms(1,2) by (cases s) (simp_all add: lstrip_def)
  have "rev s \<noteq> []" "\<not> is_space (hd (rev s))" using assms(1,3) by (simp_all add: hd_rev)
  then have "dropWhile is_space (rev s) = rev s" by (cases "rev s") simp_all
  then show ?thesis using l by (simp add: strip_def rstrip_def)
qed

lemma strip_line_end:
  assumes "s \<noteq> []" "\<not> is_space (hd s)" "\<not> is_space (last s)"
  shows "strip (s @ [newline]) = s"
proof -
  have "is_space newline" by (simp add: is_space_def newline_def)
  then have "strip (s @ [newline]) = strip s"
    by (simp add: strip_trailing)
  then show ?thesis using strip_keeps [OF assms] by simp
qed

lemma strip_env_line:
  assumes "key \<noteq> []" "\<not> is_space (hd key)"
  shows "strip (env_line key v) = key @ ''=\"'' @ v @ ''\"''"
proof -
  have "env_line key v = (key @ ''=\"'' @ v @ ''\"'') @ [newline]"
    by (simp add: env_line_def)
  moreover have "strip ((key @ ''=\"'' @ v @ ''\"'') @ [newline]) = key @ ''=\"'' @ v @ ''\"''"
    using assms by (intro strip_line_end) (simp_all add: is_space_def)
  ultimately show ?thesis by simp
qed

lemma env_line_is_key_line:
  "key \<noteq> [] \<Longrightarrow> \<not> is_space (hd key) \<Longrightarrow> is_key_line key (env_line key v)"
  by (simp add: is_key_line_def strip_env_line startswith_def)

text \<open>
  The frame of one update, when the key has a line already or the text ends with a line
  end: the lines of other keys are kept, in their order.
\<close>

lemma update_keeps_other_lines:
  assumes "has_key key file \<or> terminated file"
    and "key \<noteq> []" "\<not> is_space (hd key)" "newline \<notin> set key" "newline \<notin> set v"
  shows "filter (\<lambda>l. \<not> is_key_line key l) (readlines (update_env_variable key v file))
         = filter (\<lambda>l. \<not> is_key_line key l) (readlines file)"
proof -
  have m: "filter (\<lambda>l. \<not> is_key_line key l) (map (rewrite_line key v) ls)
           = filter (\<lambda>l. \<not> is_key_line key l) ls" for ls
    by (induction ls) (auto simp: rewrite_line_def env_line_is_key_line [OF assms(2,3)])
  show ?thesis
  proof (cases "has_key key file")
    case True
    then show ?thesis using readlines_update_present [OF True assms(4,5)] m by simp
  next
    case False
    then have "terminated file" using assms(1) by simp
    then show ?thesis
      using readlines_update_absent [OF False _ assms(4,5)] env_line_is_key_line [OF assms(2,3)]
      by simp
  qed
qed

text \<open>The lines of the key after an update: each one is the new entry.\<close>

lemma update_sets_key_lines:
  assumes "has_key key file \<or> terminated file"
    and "key \<noteq> []" "\<not> is_space (hd key)" "newline \<notin> set key" "newline \<notin> set v"
  shows "has_key key (update_env_variable key v file)
         \<and> (\<forall>l \<in> set (readlines (update_env_variable key v file)).
               is_key_line key l \<longrightarrow> l = env_line key v)"
proof (cases "has_key key file")
  case True
  have "readlines (update_env_variable key v file) = map (rewrite_line key v) (readlines file)"
    by (rule readlines_update_present [OF True assms(4,5)])
  then show ?thesis
    using True env_line_is_key_line [OF assms(2,3), of v]
    by (auto simp: has_key_def rewrite_line_def split: if_splits)
next
  case False
  then have t: "terminated file" using assms(1) by simp
  have "readlines (update_env_variable key v file) = readlines file @ [env_line key v]"
    by (rule readlines_update_absent [OF False t assms(4,5)])
  then show ?thesis
    using False env_line_is_key_line [OF assms(2,3), of v] by (auto simp: has_key_def)
qed

lemma terminated_update:
  assumes "terminated file" "newline \<notin> set key" "newline \<notin> set v"
  shows "terminated (update_env_variable key v file)"
proof -
  have c: "\<forall>l \<in> set (readlines file). complete_line l"
    using assms(1) by (simp add: all_complete_iff_terminated)
  have "\<forall>l \<in> set (readlines (update_env_variable key v file)). complete_line l"
  proof (cases "has_key key file")
    case True
    show ?thesis
      using c complete_env_line [OF assms(2,3)]
      by (auto simp: readlines_update_present [OF True assms(2,3)] rewrite_line_def)
  next
    case False
    show ?thesis
      using c complete_env_line [OF assms(2,3)]
      by (auto simp: readlines_update_absent [OF False assms])
  qed
  then show ?thesis by (simp add: all_complete_iff_terminated)
qed

lemma update_keeps_lines:
  assumes "\<And>l. P l \<Longrightarrow> \<not> is_key_line key l"
    and "has_key key file \<or> terminated file"
    and "key \<noteq> []" "\<not> is_space (hd key)" "newline \<notin> set key" "newline \<notin> set v"
  shows "filter P (readlines (update_env_variable key v file)) = filter P (readlines file)"
proof -
  have "filter P ls = filter P (filter (\<lambda>l. \<not> is_key_line key l) ls)" for ls
    using assms(1) by (induction ls) auto
  then show ?thesis
    using update_keeps_other_lines [OF assms(2-6)] by metis
qed

lemma has_key_filter: "has_key key file \<longleftrightarrow> filter (is_key_line key) (readlines file) \<noteq> []"
  by (auto simp: has_key_def filter_empty_conv)

lemma prefix_take: "prefix p s \<Longrightarrow> n \<le> length p \<Longrightarrow> take n s = take n p"
  by (auto simp: prefix_def)

lemma user_key_line_start: "is_key_line (USER_ID_PREFIX @ i) l \<Longrightarrow> take 5 (strip l) = ''GST_U''"
  using prefix_take [of "USER_ID_PREFIX @ i @ ''=''" "strip l" 5]
  by (simp add: is_key_line_def startswith_def USER_ID_PREFIX_def)

lemma password_key_line_start: "is_key_line (PASSWORD_PREFIX @ i) l \<Longrightarrow> take 5 (strip l) = ''GST_P''"
  using prefix_take [of "PASSWORD_PREFIX @ i @ ''=''" "strip l" 5]
  by (simp add: is_key_line_def startswith_def PASSWORD_PREFIX_def)

lemma well_formed_start: "well_formed l \<Longrightarrow> take 5 (strip l) = ''Trade''"
proof -
  assume "well_formed l"
  then have "prefix TRADE_NAME_PREFIX (strip l)"
    by (auto simp: well_formed_def re_match_trade_name_def startswith_def split: if_splits)
  then show ?thesis
    using prefix_take [of TRADE_NAME_PREFIX "strip l" 5] by (simp add: TRADE_NAME_PREFIX_def)
qed

lemma dict_set_values: "(k', v') \<in> set (dict_set d k v) \<Longrightarrow> (k', v') \<in> set d \<or> v' = v"
  by (induction d k v rule: dict_set.induct) (auto split: if_splits)

lemma scan_loop_values:
  assumes "\<forall>(k, v) \<in> set d. \<exists>n. v = py_str n"
  shows "\<forall>(k, v) \<in> set (fst (scan_loop ls (d, h))). \<exists>n. v = py_str n"
  using assms
proof (induction ls arbitrary: d h)
  case Nil
  then show ?case by simp
next
  case (Cons l ls)
  show ?case
  proof (cases "re_match_trade_name (strip l)")
    case None
    then show ?thesis using Cons by simp
  next
    case (Some g)
    obtain g1 g2 where g: "g = (g1, g2)" by (cases g)
    have "\<forall>(k, v) \<in> set (dict_set d (normalize_stored g2) (py_str (py_int g1))). \<exists>n. v = py_str n"
      using Cons.prems dict_set_values by fastforce
    then show ?thesis using Some g Cons.IH by (simp add: Let_def)
  qed
qed

lemma resolve_index:
  assumes "resolve file raw = Some idx"
  shows "\<exists>n. idx = py_str n"
proof -
  obtain d h where dh: "scan_loop (readlines file) ([], 0) = (d, h)"
    by (cases "scan_loop (readlines file) ([], 0)")
  have "\<forall>(k, v) \<in> set d. \<exists>n. v = py_str n"
    using scan_loop_values [of "[]" "readlines file" 0] dh by simp
  moreover have "(normalized_account_name (strip raw), idx) \<in> set d"
    using assms dh by (simp add: resolve_def get_account_mapping_def dict_get_def map_of_SomeD)
  ultimately show ?thesis by blast
qed

subsection \<open>The scan after an update\<close>

lemma scan_loop_filter: "scan_loop (filter well_formed ls) acc = scan_loop ls acc"
proof (induction ls arbitrary: acc)
  case Nil
  show ?case by simp
next
  case (Cons l ls)
  obtain d h where acc: "acc = (d, h)" by (cases acc)
  show ?case
  proof (cases "re_match_trade_name (strip l)")
    case None
    then show ?thesis using Cons acc by (simp add: well_formed_def)
  next
    case (Some g)
    then show ?thesis using Cons acc by (cases g) (simp add: well_formed_def Let_def)
  qed
qed

lemma set_strip: "set (strip s) \<subseteq> set s"
proof -
  have "set (strip s) \<subseteq> set (lstrip s)"
    using set_dropWhileD [of _ is_space "rev (lstrip s)"] by (auto simp: strip_def rstrip_def)
  moreover have "set (lstrip s) \<subseteq> set s"
    using set_dropWhileD [of _ is_space s] by (auto simp: lstrip_def)
  ultimately show ?thesis by blast
qed

lemma credential_key_ok:
  "USER_ID_PREFIX @ py_str n \<noteq> []" "\<not> is_space (hd (USER_ID_PREFIX @ py_str n))"
  "newline \<notin> set (USER_ID_PREFIX @ py_str n)"
  "PASSWORD_PREFIX @ py_str n \<noteq> []" "\<not> is_space (hd (PASSWORD_PREFIX @ py_str n))"
  "newline \<notin> set (PASSWORD_PREFIX @ py_str n)"
  "TRADE_NAME_PREFIX @ py_str n \<noteq> []" "\<not> is_space (hd (TRADE_NAME_PREFIX @ py_str n))"
  "newline \<notin> set (TRADE_NAME_PREFIX @ py_str n)"
  using py_str_no_newline [of n]
  by (simp_all add: USER_ID_PREFIX_def PASSWORD_PREFIX_def TRADE_NAME_PREFIX_def is_space_def newline_def)

lemma get_account_mapping_filter:
  assumes "filter well_formed (readlines file') = filter well_formed (readlines file)"
  shows "get_account_mapping file' = get_account_mapping file"
proof -
  have "scan_loop (readlines file') ([], 0) = scan_loop (readlines file) ([], 0)"
    using scan_loop_filter [of "readlines file'" "([], 0)"] scan_loop_filter [of "readlines file" "([], 0)"]
      assms by simp
  then show ?thesis by (simp add: get_account_mapping_def)
qed

lemma update_existing_account_file:
  assumes "resolve file raw_name = Some idx"
  shows "file_after (update_existing_account file (raw_name # raw_username # raw_password # rest))
         = (let file1 = (if strip raw_username \<noteq> []
                         then update_env_variable (USER_ID_PREFIX @ idx) (strip raw_username) file
                         else file)
            in if strip raw_password \<noteq> []
               then update_env_variable (PASSWORD_PREFIX @ idx) (strip raw_password) file1
               else file1)"
proof -
  obtain d h where dh: "get_account_mapping file = (d, h)" by (cases "get_account_mapping file")
  have g: "dict_get d (normalized_account_name (strip raw_name)) = Some idx"
    using assms dh by (simp add: resolve_def)
  then have "d \<noteq> []" by (auto simp: dict_get_def)
  then show ?thesis using dh g by (simp add: update_existing_account_def Let_def)
qed

text \<open>
  The frame of an update of an account, when the text of the file ends with a line end or
  the account has a line for its username and one for its password: a blank field keeps its
  lines, a field that is given has the new entry on each of its lines, and all other lines,
  with them the mapping of the trade names, are kept.
\<close>

lemma update_existing_account_frame:
  assumes r: "resolve file raw_name = Some idx"
    and nl: "newline \<notin> set raw_username" "newline \<notin> set raw_password"
    and ok: "terminated file
             \<or> (has_key (USER_ID_PREFIX @ idx) file \<and> has_key (PASSWORD_PREFIX @ idx) file)"
    and f': "file' = file_after (update_existing_account file
                        (raw_name # raw_username # raw_password # rest))"
    and uk: "ukey = USER_ID_PREFIX @ idx" and pk: "pkey = PASSWORD_PREFIX @ idx"
  shows "(strip raw_password = [] \<longrightarrow>
            filter (is_key_line pkey) (readlines file') = filter (is_key_line pkey) (readlines file))
       \<and> (strip raw_username = [] \<longrightarrow>
            filter (is_key_line ukey) (readlines file') = filter (is_key_line ukey) (readlines file))
       \<and> (strip raw_username \<noteq> [] \<longrightarrow> has_key ukey file'
            \<and> (\<forall>l \<in> set (readlines file'). is_key_line ukey l \<longrightarrow> l = env_line ukey (strip raw_username)))
       \<and> (strip raw_password \<noteq> [] \<longrightarrow> has_key pkey file'
            \<and> (\<forall>l \<in> set (readlines file'). is_key_line pkey l \<longrightarrow> l = env_line pkey (strip raw_password)))
       \<and> filter (\<lambda>l. \<not> is_key_line ukey l \<and> \<not> is_key_line pkey l) (readlines file')
           = filter (\<lambda>l. \<not> is_key_line ukey l \<and> \<not> is_key_line pkey l) (readlines file)
       \<and> get_account_mapping file' = get_account_mapping file"
proof -
  obtain n where idx: "idx = py_str n" using resolve_index [OF r] by blast
  let ?u = "strip raw_username" and ?p = "strip raw_password"
  define file1 where "file1 = (if ?u \<noteq> [] then update_env_variable ukey ?u file else file)"
  have file': "file' = (if ?p \<noteq> [] then update_env_variable pkey ?p file1 else file1)"
    using update_existing_account_file [OF r, of raw_username raw_password rest] f' uk pk
    by (simp add: file1_def Let_def)
  have nlu: "newline \<notin> set ?u" and nlp: "newline \<notin> set ?p"
    using nl set_strip by blast+
  have ku: "ukey \<noteq> []" "\<not> is_space (hd ukey)" "newline \<notin> set ukey"
    and kp: "pkey \<noteq> []" "\<not> is_space (hd pkey)" "newline \<notin> set pkey"
    using credential_key_ok [of n] uk pk idx by simp_all
  have disj: "is_key_line pkey l \<Longrightarrow> \<not> is_key_line ukey l" for l
    using user_key_line_start [of idx l] password_key_line_start [of idx l] uk pk by auto
  have disj': "is_key_line ukey l \<Longrightarrow> \<not> is_key_line pkey l" for l
    using disj by blast
  have wfu: "well_formed l \<Longrightarrow> \<not> is_key_line ukey l" for l
    using user_key_line_start [of idx l] well_formed_start [of l] uk by auto
  have wfp: "well_formed l \<Longrightarrow> \<not> is_key_line pkey l" for l
    using password_key_line_start [of idx l] well_formed_start [of l] pk by auto
  have pre1: "has_key ukey file \<or> terminated file" using ok uk by blast
  have A: "filter P (readlines file1) = filter P (readlines file)"
    if "\<And>l. P l \<Longrightarrow> \<not> is_key_line ukey l" for P
    using update_keeps_lines [of P ukey "file" ?u, OF that pre1 ku nlu]
    by (simp add: file1_def)
  have pre2: "has_key pkey file1 \<or> terminated file1"
  proof (cases "terminated file")
    case True
    then have "terminated file1"
      using terminated_update [OF True ku(3) nlu] by (simp add: file1_def)
    then show ?thesis by simp
  next
    case False
    then have "has_key pkey file" using ok pk by blast
    then have "has_key pkey file1"
      using A [OF disj] by (simp add: has_key_filter)
    then show ?thesis by simp
  qed
  have B: "filter P (readlines file') = filter P (readlines file1)"
    if "\<And>l. P l \<Longrightarrow> \<not> is_key_line pkey l" for P
    using update_keeps_lines [of P pkey file1 ?p, OF that pre2 kp nlp]
    by (simp add: file')
  have c1: "?p = [] \<longrightarrow> filter (is_key_line pkey) (readlines file') = filter (is_key_line pkey) (readlines file)"
    using A [OF disj] by (simp add: file')
  have c2: "?u = [] \<longrightarrow> filter (is_key_line ukey) (readlines file') = filter (is_key_line ukey) (readlines file)"
    using B [OF disj'] by (simp add: file1_def)
  have c3: "?u \<noteq> [] \<longrightarrow> has_key ukey file'
            \<and> (\<forall>l \<in> set (readlines file'). is_key_line ukey l \<longrightarrow> l = env_line ukey ?u)"
  proof
    assume ne: "?u \<noteq> []"
    have s: "has_key ukey file1 \<and> (\<forall>l \<in> set (readlines file1). is_key_line ukey l \<longrightarrow> l = env_line ukey ?u)"
      using update_sets_key_lines [OF pre1 ku nlu] ne by (simp add: file1_def)
    have e: "filter (is_key_line ukey) (readlines file') = filter (is_key_line ukey) (readlines file1)"
      by (rule B [OF disj'])
    have "has_key ukey file'" using s e by (simp add: has_key_filter)
    moreover have "l = env_line ukey ?u" if "l \<in> set (readlines file')" "is_key_line ukey l" for l
    proof -
      have "l \<in> set (filter (is_key_line ukey) (readlines file'))" using that by simp
      then have "l \<in> set (readlines file1)" unfolding e by simp
      then show ?thesis using s that(2) by blast
    qed
    ultimately show "has_key ukey file'
        \<and> (\<forall>l \<in> set (readlines file'). is_key_line ukey l \<longrightarrow> l = env_line ukey ?u)"
      by blast
  qed
  have c4: "?p \<noteq> [] \<longrightarrow> has_key pkey file'
            \<and> (\<forall>l \<in> set (readlines file'). is_key_line pkey l \<longrightarrow> l = env_line pkey ?p)"
    using update_sets_key_lines [OF pre2 kp nlp] by (simp add: file')
  have c5: "filter (\<lambda>l. \<not> is_key_line ukey l \<and> \<not> is_key_line pkey l) (readlines file')
           = filter (\<lambda>l. \<not> is_key_line ukey l \<and> \<not> is_key_line pkey l) (readlines file)"
    using A [of "\<lambda>l. \<not> is_key_line ukey l \<and> \<not> is_key_line pkey l"]
      B [of "\<lambda>l. \<not> is_key_line ukey l \<and> \<not> is_key_line pkey l"] by simp
  have "filter well_formed (readlines file') = filter well_formed (readlines file)"
    using A [of well_formed] B [of well_formed] wfu wfp by simp
  then have c6: "get_account_mapping file' = get_account_mapping file"
    by (rule get_account_mapping_filter)
  show ?thesis using c1 c2 c3 c4 c5 c6 by (intro conjI)
qed

lemma map_of_dict_set: "map_of (dict_set d k v) = (map_of d)(k \<mapsto> v)"
  by (induction d k v rule: dict_set.induct) auto

lemma scan_loop_append: "scan_loop (xs @ ys) acc = scan_loop ys (scan_loop xs acc)"
proof (induction xs arbitrary: acc)
  case Nil
  show ?case by simp
next
  case (Cons l xs)
  obtain d h where acc: "acc = (d, h)" by (cases acc)
  show ?case using Cons acc by (simp add: Let_def split: option.splits prod.splits)
qed

lemma not_digit_eq: "\<not> is_digit (CHR ''='')"
  by (simp add: is_digit_def)

lemma re_match_digits:
  assumes "newline \<notin> set r"
  shows "re_match_trade_name (TRADE_NAME_PREFIX @ py_str n @ CHR ''='' # r) = Some (py_str n, r)"
proof -
  have t: "takeWhile is_digit (py_str n @ CHR ''='' # r) = py_str n"
    using py_str_digits [of n] not_digit_eq by (simp add: takeWhile_tail)
  have d: "dropWhile is_digit (py_str n @ CHR ''='' # r) = CHR ''='' # r"
    using py_str_digits [of n] not_digit_eq by (simp add: dropWhile_append2)
  show ?thesis
    using assms py_str_nonempty [of n]
    by (simp add: re_match_trade_name_def startswith_def t d Let_def)
qed

lemma line_strip_no_newline:
  assumes "complete_line l \<or> partial_line l"
  shows "newline \<notin> set (strip l)"
  using assms
proof
  assume "complete_line l"
  then obtain b where b: "l = b @ [newline]" "newline \<notin> set b" by (rule complete_lineE)
  have "is_space newline" by (simp add: is_space_def newline_def)
  then have "strip l = strip b" using b by (simp add: strip_trailing)
  then show ?thesis using b set_strip [of b] by auto
next
  assume "partial_line l"
  then show ?thesis using set_strip [of l] by (auto simp: partial_line_def)
qed

lemma lines_ok_member: "lines_ok ls \<Longrightarrow> l \<in> set ls \<Longrightarrow> complete_line l \<or> partial_line l"
  by (induction ls rule: lines_ok.induct) auto

lemma readlines_strip_no_newline: "l \<in> set (readlines file) \<Longrightarrow> newline \<notin> set (strip l)"
  using lines_ok_member [OF lines_ok_readlines] line_strip_no_newline by blast

lemma trade_name_key_line_index:
  assumes "l \<in> set (readlines file)" "is_key_line (TRADE_NAME_PREFIX @ py_str n) l"
  shows "n \<in> set (trade_name_indices (readlines file))"
proof -
  obtain r where r: "strip l = TRADE_NAME_PREFIX @ py_str n @ CHR ''='' # r"
    using assms(2) by (auto simp: is_key_line_def startswith_def prefix_def)
  have "newline \<notin> set r"
    using readlines_strip_no_newline [OF assms(1)] r by auto
  then have "re_match_trade_name (strip l) = Some (py_str n, r)"
    using re_match_digits [of r n] r by simp
  then have "map_option (\<lambda>(g1, g2). py_int g1) (re_match_trade_name (strip l)) = Some n"
    by (simp add: py_int_py_str)
  then show ?thesis
    using assms(1) unfolding trade_name_indices_def List.map_filter_def
    by (auto simp: image_iff intro!: bexI [of _ l])
qed

text \<open>No line of the file has the key of the next index.\<close>

lemma next_index_key_is_new: "\<not> has_key (TRADE_NAME_PREFIX @ py_str (next_index file)) file"
proof
  assume "has_key (TRADE_NAME_PREFIX @ py_str (next_index file)) file"
  then obtain l where "l \<in> set (readlines file)"
      "is_key_line (TRADE_NAME_PREFIX @ py_str (next_index file)) l"
    by (auto simp: has_key_def)
  then have m: "next_index file \<in> set (trade_name_indices (readlines file))"
    by (rule trade_name_key_line_index)
  have "next_index file \<le> Max (insert 0 (set (trade_name_indices (readlines file))))"
    using m by simp
  then show False using next_index_Max_insert [of "file"] by simp
qed

lemma strip_chars_quotes:
  assumes "name \<noteq> []" "hd name \<noteq> CHR 0x22" "last name \<noteq> CHR 0x22"
  shows "strip_chars ''\"'' (''\"'' @ name @ ''\"'') = name"
proof -
  have 1: "dropWhile (\<lambda>c. c \<in> set ''\"'') (''\"'' @ name @ ''\"'') = name @ ''\"''"
    using assms(1,2) by (cases name) simp_all
  have "rev name \<noteq> []" "hd (rev name) \<noteq> CHR 0x22" using assms(1,3) by (simp_all add: hd_rev)
  then have 2: "dropWhile (\<lambda>c. c \<in> set ''\"'') (rev (name @ ''\"'')) = rev name"
    by (cases "rev name") simp_all
  show ?thesis unfolding strip_chars_def 1 2 by simp
qed

lemma normalize_stored_quoted:
  assumes "name \<noteq> []" "hd name \<noteq> CHR 0x22" "last name \<noteq> CHR 0x22"
  shows "normalize_stored (''\"'' @ name @ ''\"'') = normalized_account_name name"
proof -
  have "strip (''\"'' @ name @ ''\"'') = ''\"'' @ name @ ''\"''"
    by (rule strip_keeps) (simp_all add: is_space_def)
  then show ?thesis
    using strip_chars_quotes [OF assms]
    by (simp add: normalize_stored_def normalized_account_name_def)
qed

text \<open>
  An add of a new name to a file whose text ends with a line end, the name having no double
  quote at either end: the name resolves to the index of the add in the file afterwards.
\<close>

lemma add_new_account_resolves:
  assumes added: "outcome (add_new_account file (raw_name # rest)) = Added idx"
    and new: "resolve file raw_name = None"
    and t: "terminated file"
    and nl: "newline \<notin> set raw_name" "\<forall>raw \<in> set rest. newline \<notin> set raw"
    and q: "hd (strip raw_name) \<noteq> CHR 0x22" "last (strip raw_name) \<noteq> CHR 0x22"
  shows "idx = py_str (next_index file)
       \<and> resolve (file_after (add_new_account file (raw_name # rest))) raw_name = Some idx"
proof -
  let ?name = "strip raw_name" and ?n = "next_index file"
  obtain d h where dh: "get_account_mapping file = (d, h)" by (cases "get_account_mapping file")
  have ne: "?name \<noteq> []"
    using added dh by (auto simp: add_new_account_def Let_def split: if_splits)
  have none: "dict_get d (upper (remove_spaces ?name)) = None"
    using new dh by (simp add: resolve_def normalized_account_name_def)
  have h: "h = ?n" using dh by (simp add: next_index_def)
  have eq: "add_new_account file (raw_name # rest)
      = add_credentials file ?name (py_str ?n) [(AskTradeName, raw_name)] rest"
    using dh ne none h by (simp add: add_new_account_def Let_def)
  from add_credentials_added [of "file" ?name "py_str ?n" "[(AskTradeName, raw_name)]" rest idx]
  obtain raw_u raw_p rest' where idx: "idx = py_str ?n" and rest: "rest = raw_u # raw_p # rest'"
    and fa: "file_after (add_new_account file (raw_name # rest))
             = update_env_variable (PASSWORD_PREFIX @ idx) (strip raw_p)
                 (update_env_variable (USER_ID_PREFIX @ idx) (strip raw_u)
                   (update_env_variable (TRADE_NAME_PREFIX @ idx) ?name file))"
    using added eq by auto
  let ?tkey = "TRADE_NAME_PREFIX @ idx" and ?ukey = "USER_ID_PREFIX @ idx"
    and ?pkey = "PASSWORD_PREFIX @ idx"
  let ?f1 = "update_env_variable ?tkey ?name file"
  let ?f2 = "update_env_variable ?ukey (strip raw_u) ?f1"
  let ?f3 = "update_env_variable ?pkey (strip raw_p) ?f2"
  have nln: "newline \<notin> set ?name" using nl(1) set_strip by blast
  have nlu: "newline \<notin> set (strip raw_u)" and nlp: "newline \<notin> set (strip raw_p)"
    using nl(2) rest set_strip by auto
  note k = credential_key_ok [of ?n, folded idx]
  have l1: "readlines ?f1 = readlines file @ [env_line ?tkey ?name]"
    using next_index_key_is_new [of "file"] readlines_update_absent [OF _ t k(9) nln]
    by (simp add: idx)
  have t1: "terminated ?f1" by (rule terminated_update [OF t k(9) nln])
  have t2: "terminated ?f2" by (rule terminated_update [OF t1 k(3) nlu])
  have wfu: "well_formed l \<Longrightarrow> \<not> is_key_line ?ukey l" for l
    using user_key_line_start [of idx l] well_formed_start [of l] by auto
  have wfp: "well_formed l \<Longrightarrow> \<not> is_key_line ?pkey l" for l
    using password_key_line_start [of idx l] well_formed_start [of l] by auto
  have "filter well_formed (readlines ?f3) = filter well_formed (readlines ?f2)"
    using update_keeps_lines [of well_formed ?pkey ?f2 "strip raw_p", OF wfp _ k(4,5,6) nlp] t2
    by simp
  also have "\<dots> = filter well_formed (readlines ?f1)"
    using update_keeps_lines [of well_formed ?ukey ?f1 "strip raw_u", OF wfu _ k(1,2,3) nlu] t1
    by simp
  finally have m3: "get_account_mapping ?f3 = get_account_mapping ?f1"
    by (rule get_account_mapping_filter)
  have sl: "strip (env_line ?tkey ?name) = TRADE_NAME_PREFIX @ py_str ?n @ CHR ''='' # (''\"'' @ ?name @ ''\"'')"
    using strip_env_line [OF k(7,8), of ?name] by (simp add: idx)
  have "re_match_trade_name (strip (env_line ?tkey ?name)) = Some (py_str ?n, ''\"'' @ ?name @ ''\"'')"
    unfolding sl using nln by (intro re_match_digits) (simp add: newline_def)
  then have step: "scan_loop [env_line ?tkey ?name] (d', h')
      = (dict_set d' (normalized_account_name ?name) idx, if ?n > h' then ?n else h')" for d' h'
    using normalize_stored_quoted [OF ne q] by (simp add: Let_def py_int_py_str idx)
  obtain d0 h0 where d0: "scan_loop (readlines file) ([], 0) = (d0, h0)"
    by (cases "scan_loop (readlines file) ([], 0)")
  have "fst (get_account_mapping ?f1) = dict_set d0 (normalized_account_name ?name) idx"
    using step [of d0 h0] d0 by (simp add: get_account_mapping_def l1 scan_loop_append)
  then have "resolve ?f3 raw_name = Some idx"
    by (simp add: resolve_def m3 dict_get_def map_of_dict_set)
  then show ?thesis using idx fa by simp
qed

subsection \<open>Files whose last line has no line end\<close>

text \<open>
  C5. The claim: an add of a new name uses the next index, and that index maps to the new
  name in any later scan of the store. On the file of the instance the add reports index 2
  and makes its three writes, and a later scan finds no account of that name and still
  gives 2 as the next index: the trade-name entry was joined to the last line of the file.
\<close>

theorem add_to_unterminated_file_is_lost:
  "outcome (add_new_account unterminated_file [''Beta'', ''u2'', ''p2'']) = Added ''2''
   \<and> writes (add_new_account unterminated_file [''Beta'', ''u2'', ''p2''])
       = [(''Trade_Name_2'', ''Beta''), (''GST_UserID_2'', ''u2''), (''GST_PSSWD_2'', ''p2'')]
   \<and> resolve (file_after (add_new_account unterminated_file [''Beta'', ''u2'', ''p2''])) ''Beta'' = None
   \<and> next_index (file_after (add_new_account unterminated_file [''Beta'', ''u2'', ''p2''])) = 2"
  by (simp add: store_eval lines_eval unterminated_file_def)


text \<open>
  C6. The claim: an update with a blank password leaves the stored password unchanged, and a
  new username replaces only its own field. On the file of the instance the account has no
  username line yet: the update writes the username only, and the entry is joined to the
  password line, which is the last line of the file and has no line end.
\<close>

theorem update_of_other_field_changes_password_line:
  "resolve incomplete_account_file ''beta'' = Some ''2''
   \<and> outcome (update_existing_account incomplete_account_file [''beta'', ''u'', '''']) = Updated
   \<and> writes (update_existing_account incomplete_account_file [''beta'', ''u'', ''''])
       = [(''GST_UserID_2'', ''u'')]
   \<and> filter (is_key_line ''GST_PSSWD_2'') (readlines incomplete_account_file) = [''GST_PSSWD_2=\"p\"'']
   \<and> filter (is_key_line ''GST_PSSWD_2'')
        (readlines (file_after (update_existing_account incomplete_account_file [''beta'', ''u'', ''''])))
       = [''GST_PSSWD_2=\"p\"GST_UserID_2=\"u\"'' @ [newline]]
   \<and> filter (is_key_line ''GST_UserID_2'')
        (readlines (file_after (update_existing_account incomplete_account_file [''beta'', ''u'', ''''])))
       = []"
  by (simp add: store_eval lines_eval incomplete_account_file_def)

section \<open>Malformed lines\<close>

text \<open>
  C9. The lines whose stripped text does not match \<open>Trade_Name_<digits>=<value>\<close> play no
  part in the scan: the mapping, the next index and the listing of a file are those of the
  file without these lines.
\<close>

theorem malformed_lines_are_ignored:
  "get_account_mapping (writelines (filter well_formed (readlines file))) = get_account_mapping file
   \<and> next_index (writelines (filter well_formed (readlines file))) = next_index file
   \<and> list_all_accounts environ (writelines (filter well_formed (readlines file)))
       = list_all_accounts environ file"
proof -
  have "readlines (writelines (filter well_formed (readlines file))) = filter well_formed (readlines file)"
    using lines_ok_filter [OF lines_ok_readlines] by (simp add: writelines_def readlines_concat)
  then have "get_account_mapping (writelines (filter well_formed (readlines file))) = get_account_mapping file"
    by (simp add: get_account_mapping_def scan_loop_filter)
  then show ?thesis by (simp add: next_index_def list_all_accounts_def)
qed

theorem malformed_lines_are_ignored_witness:
  "\<not> well_formed ''Trade_Name_=x'' \<and> \<not> well_formed ''Trade_Name_abc=x''
   \<and> get_account_mapping (''Trade_Name_=x'' @ [newline] @ env_line ''Trade_Name_1'' ''Acme Co'' @ ''Trade_Name_abc=x'' @ [newline])
       = ([(''ACMECO'', ''1'')], 2)"
proof -
  let ?f = "''Trade_Name_=x'' @ [newline] @ env_line ''Trade_Name_1'' ''Acme Co'' @ ''Trade_Name_abc=x'' @ [newline]"
  have a: "\<not> well_formed ''Trade_Name_=x''" "\<not> well_formed ''Trade_Name_abc=x''"
    by (simp_all add: store_eval lines_eval)
  have b: "writelines (filter well_formed (readlines ?f)) = env_line ''Trade_Name_1'' ''Acme Co''"
    by (simp add: store_eval lines_eval)
  have c: "get_account_mapping (env_line ''Trade_Name_1'' ''Acme Co'') = ([(''ACMECO'', ''1'')], 2)"
    by (simp add: store_eval)
  have "get_account_mapping ?f = get_account_mapping (writelines (filter well_formed (readlines ?f)))"
    by (rule conjunct1 [OF malformed_lines_are_ignored, symmetric])
  also have "\<dots> = get_account_mapping (env_line ''Trade_Name_1'' ''Acme Co'')"
    by (simp only: b)
  also note c
  finally show ?thesis using a by (intro conjI)
qed


end
